theory Spec2Isabelle
  imports Complex_Main "HOL-Library.Multiset"
begin

section \<open>Undo/redo history (src/history.ts, class SceneHistory)\<close>

text \<open>
  The two stacks of \<^verbatim>\<open>SceneHistory\<close> are JavaScript arrays used with
  \<^verbatim>\<open>push\<close> and \<^verbatim>\<open>pop\<close>: the top of a stack is the last element of the list.
  \<^verbatim>\<open>JSON.parse\<close> is a built-in of the host language; it is a parameter \<open>parse\<close> of the
  model, with \<open>None\<close> for a thrown \<^verbatim>\<open>SyntaxError\<close>. The value \<^verbatim>\<open>null\<close> returned by the
  methods is \<open>None\<close>, the value \<^verbatim>\<open>undefined\<close> of an out-of-range read
  \<^verbatim>\<open>stateHistory[length - 1]\<close> is \<open>None\<close> of type \<open>string option\<close>.
\<close>

record sceneHistory =
  recording :: bool
  stateHistory :: "string list"
  redoStack :: "string list"

definition createHistory :: sceneHistory where
  "createHistory = \<lparr>recording = True, stateHistory = [], redoStack = []\<rparr>"

text \<open>\<^verbatim>\<open>Array.prototype.pop\<close>: the removed last element (\<^verbatim>\<open>undefined\<close> on an empty array)
  and the remaining array.\<close>

definition pop :: "'a list \<Rightarrow> 'a option \<times> 'a list" where
  "pop xs = (if xs = [] then (None, []) else (Some (last xs), butlast xs))"

text \<open>\<^verbatim>\<open>xs[xs.length - 1]\<close>.\<close>

definition topEntry :: "'a list \<Rightarrow> 'a option" where
  "topEntry xs = (if xs = [] then None else Some (last xs))"

definition clearRedoStack :: "sceneHistory \<Rightarrow> sceneHistory" where
  "clearRedoStack h = h\<lparr>redoStack := []\<rparr>"

definition pushEntry :: "sceneHistory \<Rightarrow> string \<Rightarrow> sceneHistory" where
  "pushEntry h newEntry =
     (if length (stateHistory h) > 0 \<and> last (stateHistory h) = newEntry
      then h
      else clearRedoStack (h\<lparr>stateHistory := stateHistory h @ [newEntry]\<rparr>))"

text \<open>\<^verbatim>\<open>restoreEntry\<close>: \<^verbatim>\<open>try { return JSON.parse(entry) } catch { return null }\<close>.
  \<^verbatim>\<open>JSON.parse\<close> converts its argument to a string first, so \<^verbatim>\<open>undefined\<close> is parsed as
  the text \<^verbatim>\<open>undefined\<close>.\<close>

definition restoreEntry :: "(string \<Rightarrow> 'j option) \<Rightarrow> string option \<Rightarrow> 'j option" where
  "restoreEntry parse entry =
     (case parse (case entry of None \<Rightarrow> ''undefined'' | Some s \<Rightarrow> s) of
        Some v \<Rightarrow> Some v
      | None \<Rightarrow> None)"

definition redoOnce :: "(string \<Rightarrow> 'j option) \<Rightarrow> sceneHistory \<Rightarrow> 'j option \<times> sceneHistory" where
  "redoOnce parse h =
     (if length (redoStack h) = 0 then (None, h)
      else
        (case pop (redoStack h) of
           (Some entryToRestore, rest) \<Rightarrow>
             (restoreEntry parse (Some entryToRestore),
              h\<lparr>redoStack := rest, stateHistory := stateHistory h @ [entryToRestore]\<rparr>)
         | (None, rest) \<Rightarrow> (None, h\<lparr>redoStack := rest\<rparr>)))"

definition undoOnce :: "(string \<Rightarrow> 'j option) \<Rightarrow> sceneHistory \<Rightarrow> 'j option \<times> sceneHistory" where
  "undoOnce parse h =
     (if length (stateHistory h) = 0 then (None, h)
      else
        (case pop (stateHistory h) of
           (currentEntry, rest) \<Rightarrow>
             (let entryToRestore = topEntry rest in
              case currentEntry of
                Some c \<Rightarrow>
                  (restoreEntry parse entryToRestore,
                   h\<lparr>stateHistory := rest, redoStack := redoStack h @ [c]\<rparr>)
              | None \<Rightarrow> (None, h\<lparr>stateHistory := rest\<rparr>))))"

text \<open>A parser used to run the model on concrete snapshots: it accepts the texts of the empty
  array and of the empty object only.\<close>

definition parseTiny :: "string \<Rightarrow> string option" where
  "parseTiny s = (if s = ''[]'' \<or> s = ''{}'' then Some s else None)"

text \<open>A second parser for running the model: it accepts every text enclosed in square
  brackets and returns the text itself, so that different snapshots restore to different
  values.\<close>

definition parseBracketed :: "string \<Rightarrow> string option" where
  "parseBracketed s =
     (if s \<noteq> [] \<and> hd s = CHR ''['' \<and> last s = CHR '']'' then Some s else None)"


section \<open>Restacking (src/zindex.ts)\<close>

text \<open>
  The element list is a JavaScript array that the four functions mutate and return. A
  JavaScript array is its \<^verbatim>\<open>length\<close> and its properties: \<open>aat a i\<close> is the value
  stored under the integer key \<open>i\<close>, \<open>None\<close> for \<^verbatim>\<open>undefined\<close> (a key never written reads
  as \<^verbatim>\<open>undefined\<close>). A write at a key at or beyond the length extends the array, a write
  at a negative key sets a property and leaves the length alone. The indices are integers.
\<close>

record 'a jsarray =
  alen :: nat
  aat :: "int \<Rightarrow> 'a option"

definition fromList :: "'a list \<Rightarrow> 'a jsarray" where
  "fromList xs =
     \<lparr>alen = length xs,
      aat = (\<lambda>i. if 0 \<le> i \<and> i < int (length xs) then Some (xs ! nat i) else None)\<rparr>"

definition toList :: "'a jsarray \<Rightarrow> 'a option list" where
  "toList a = map (\<lambda>k. aat a (int k)) [0..<alen a]"

definition getAt :: "'a jsarray \<Rightarrow> int \<Rightarrow> 'a option" where
  "getAt a i = aat a i"

definition setAt :: "'a jsarray \<Rightarrow> int \<Rightarrow> 'a option \<Rightarrow> 'a jsarray" where
  "setAt a i v =
     \<lparr>alen = (if int (alen a) \<le> i then nat i + 1 else alen a),
      aat = (aat a)(i := v)\<rparr>"

definition swap :: "'a jsarray \<Rightarrow> int \<Rightarrow> int \<Rightarrow> 'a jsarray" where
  "swap elements indexA indexB =
     (let element = getAt elements indexA;
          elements1 = setAt elements indexA (getAt elements indexB)
      in setAt elements1 indexB element)"

text \<open>\<^verbatim>\<open>xs.forEach((x, i) => ...)\<close>: the callback receives the element and its position and
  updates the state \<open>s\<close> (the variables it assigns to).\<close>

fun forEachFrom :: "('b \<Rightarrow> nat \<Rightarrow> 's \<Rightarrow> 's) \<Rightarrow> nat \<Rightarrow> 'b list \<Rightarrow> 's \<Rightarrow> 's" where
  "forEachFrom f i [] s = s"
| "forEachFrom f i (x # xs) s = forEachFrom f (Suc i) xs (f x i s)"

definition forEach :: "('b \<Rightarrow> nat \<Rightarrow> 's \<Rightarrow> 's) \<Rightarrow> 'b list \<Rightarrow> 's \<Rightarrow> 's" where
  "forEach f xs s = forEachFrom f 0 xs s"

text \<open>The callback of \<^verbatim>\<open>moveOneLeft\<close>; the state is the array and the flag \<^verbatim>\<open>isSorted\<close>.\<close>

definition moveOneLeftStep :: "int \<Rightarrow> nat \<Rightarrow> 'a jsarray \<times> bool \<Rightarrow> 'a jsarray \<times> bool" where
  "moveOneLeftStep index i st =
     (case st of (elements, isSorted) \<Rightarrow>
        (let isSorted1 = (isSorted \<and> index = int i) in
         if isSorted1 then (elements, isSorted1)
         else (swap elements (index - 1) index, isSorted1)))"

text \<open>\<^verbatim>\<open>indicesToMove.sort((a, b) => a - b)\<close> sorts the numbers in ascending order.\<close>

definition moveOneLeft :: "'a jsarray \<Rightarrow> int list \<Rightarrow> 'a jsarray" where
  "moveOneLeft elements indicesToMove =
     fst (forEach moveOneLeftStep (sort indicesToMove) (elements, True))"

definition moveOneRightStep :: "int \<Rightarrow> nat \<Rightarrow> 'a jsarray \<times> bool \<Rightarrow> 'a jsarray \<times> bool" where
  "moveOneRightStep index i st =
     (case st of (elements, isSorted) \<Rightarrow>
        (let isSorted1 = (isSorted \<and> index = int (alen elements) - int i - 1) in
         if isSorted1 then (elements, isSorted1)
         else (swap elements (index + 1) index, isSorted1)))"

text \<open>\<^verbatim>\<open>indicesToMove.sort((a, b) => b - a)\<close> sorts the numbers in descending order.\<close>

definition moveOneRight :: "'a jsarray \<Rightarrow> int list \<Rightarrow> 'a jsarray" where
  "moveOneRight elements indicesToMove =
     fst (forEach moveOneRightStep (rev (sort indicesToMove)) (elements, True))"

text \<open>The inner loop of \<^verbatim>\<open>moveAllLeft\<close>:
  \<^verbatim>\<open>for (pos = start; pos >= index; --pos) elements[pos + i] = elements[pos]\<close>.\<close>

function shiftRightLoop :: "'a jsarray \<Rightarrow> int \<Rightarrow> int \<Rightarrow> nat \<Rightarrow> 'a jsarray" where
  "shiftRightLoop elements pos index i =
     (if pos \<ge> index
      then shiftRightLoop (setAt elements (pos + int i) (getAt elements pos)) (pos - 1) index i
      else elements)"
  by pat_completeness auto
termination
  by (relation "measure (\<lambda>(elements, pos, index, i). nat (pos - index + 1))") auto

declare shiftRightLoop.simps [simp del]

text \<open>The two callbacks of \<^verbatim>\<open>moveAllLeft\<close>. \<^verbatim>\<open>reversedIndicesToMove[i - 1]\<close> is read for
  \<open>1 \<le> i < length\<close> only, inside the list.\<close>

definition moveAllLeftStep :: "int list \<Rightarrow> int \<Rightarrow> nat \<Rightarrow> 'a jsarray \<Rightarrow> 'a jsarray" where
  "moveAllLeftStep reversedIndicesToMove index i elements =
     (if i = 0 then elements
      else shiftRightLoop elements (reversedIndicesToMove ! (i - 1) - 1) index i)"

definition fillLeftStep :: "'a option \<Rightarrow> nat \<Rightarrow> 'a jsarray \<Rightarrow> 'a jsarray" where
  "fillLeftStep element i elements = setAt elements (int i) element"

definition moveAllLeft :: "'a jsarray \<Rightarrow> int list \<Rightarrow> 'a jsarray" where
  "moveAllLeft elements indicesToMove =
     (let sorted = sort indicesToMove;
          leftMostElements = map (getAt elements) sorted;
          reversedIndicesToMove = rev sorted @ [0];
          elements1 =
            forEach (moveAllLeftStep reversedIndicesToMove) reversedIndicesToMove elements
      in forEach fillLeftStep leftMostElements elements1)"

text \<open>The inner loop of \<^verbatim>\<open>moveAllRight\<close>:
  \<^verbatim>\<open>for (pos = start; pos < index; ++pos) elements[pos - i] = elements[pos]\<close>.\<close>

function shiftLeftLoop :: "'a jsarray \<Rightarrow> int \<Rightarrow> int \<Rightarrow> nat \<Rightarrow> 'a jsarray" where
  "shiftLeftLoop elements pos index i =
     (if pos < index
      then shiftLeftLoop (setAt elements (pos - int i) (getAt elements pos)) (pos + 1) index i
      else elements)"
  by pat_completeness auto
termination
  by (relation "measure (\<lambda>(elements, pos, index, i). nat (index - pos))") auto

declare shiftLeftLoop.simps [simp del]

text \<open>The two callbacks of \<^verbatim>\<open>moveAllRight\<close>; \<^verbatim>\<open>elements.length\<close> is read at each call.\<close>

definition moveAllRightStep :: "int list \<Rightarrow> int \<Rightarrow> nat \<Rightarrow> 'a jsarray \<Rightarrow> 'a jsarray" where
  "moveAllRightStep indicesToMove index i elements =
     (if i = 0 then elements
      else shiftLeftLoop elements (indicesToMove ! (i - 1) + 1) index i)"

definition fillRightStep :: "'a option \<Rightarrow> nat \<Rightarrow> 'a jsarray \<Rightarrow> 'a jsarray" where
  "fillRightStep element i elements =
     setAt elements (int (alen elements) - int i - 1) element"

definition moveAllRight :: "'a jsarray \<Rightarrow> int list \<Rightarrow> 'a jsarray" where
  "moveAllRight elements indicesToMove =
     (let reversedIndicesToMove = rev (sort indicesToMove);
          rightMostElements = map (getAt elements) reversedIndicesToMove;
          indicesToMove1 = rev reversedIndicesToMove @ [int (alen elements)];
          elements1 = forEach (moveAllRightStep indicesToMove1) indicesToMove1 elements
      in forEach fillRightStep rightMostElements elements1)"


section \<open>Element geometry (src/element/bounds.ts)\<close>

text \<open>
  In this section a JavaScript number is modelled as a real number: the functions are
  given by the exact values of the formulas of the code, and rounding is not modelled. The
  value \<^verbatim>\<open>NaN\<close> is modelled where the code can produce it: a computed number is then a
  \<open>real option\<close> with \<open>None\<close> for \<^verbatim>\<open>NaN\<close>. The only division by zero in the functions of
  this section is \<open>0 / 0\<close> in \<^verbatim>\<open>getArrowPoints\<close>, which is \<^verbatim>\<open>NaN\<close>. (Hit testing, which
  compares numbers, is modelled on double-precision numbers in the next section.)

  The fields \<^verbatim>\<open>type\<close>, \<^verbatim>\<open>x\<close> and \<^verbatim>\<open>y\<close> of an element are \<open>elementType\<close>, \<open>elementX\<close> and
  \<open>elementY\<close>; a point \<^verbatim>\<open>[x, y]\<close> is a pair. The other fields of an element (colours of the
  stroke, seed, cached shape and so on) are in the \<open>more\<close> part of the record.
\<close>

record element =
  elementType :: string
  elementX :: real
  elementY :: real
  width :: real
  height :: real
  backgroundColor :: string
  points :: "(real \<times> real) list"

datatype error = TypeError | Unimplemented string

text \<open>\<^verbatim>\<open>Math.hypot\<close> of two numbers.\<close>

definition hypot :: "real \<Rightarrow> real \<Rightarrow> real" where
  "hypot a b = sqrt (a\<^sup>2 + b\<^sup>2)"

text \<open>\<^verbatim>\<open>getDiamondPoints\<close>; the array of eight numbers is a tuple.\<close>

definition getDiamondPoints ::
    "element \<Rightarrow> real \<times> real \<times> real \<times> real \<times> real \<times> real \<times> real \<times> real" where
  "getDiamondPoints element =
     (let topX = of_int \<lfloor>width element / 2\<rfloor> + 1;
          topY = 0;
          rightX = width element;
          rightY = of_int \<lfloor>height element / 2\<rfloor> + 1;
          bottomX = topX;
          bottomY = height element;
          leftX = topY;
          leftY = rightY
      in (topX, topY, rightX, rightY, bottomX, bottomY, leftX, leftY))"

text \<open>\<^verbatim>\<open>rotate\<close> (here \<open>rotatePoint\<close>), which \<^verbatim>\<open>bounds.ts\<close> imports from the module
  \<^verbatim>\<open>math\<close>. It is translated from its definition in the single-file version of the program
  (the part of src/zindex.ts after the restacking functions).\<close>

definition rotatePoint :: "real \<Rightarrow> real \<Rightarrow> real \<Rightarrow> real \<Rightarrow> real \<Rightarrow> real \<times> real" where
  "rotatePoint x1 y1 x2 y2 angle =
     ((x1 - x2) * cos angle - (y1 - y2) * sin angle + x2,
      (x1 - x2) * sin angle + (y1 - y2) * cos angle + y2)"

text \<open>The \<^verbatim>\<open>reduce\<close> of \<^verbatim>\<open>getArrowPoints\<close> that sums the lengths of the segments; the first
  argument is \<^verbatim>\<open>points[idx - 1]\<close>, \<^verbatim>\<open>[0, 0]\<close> at the start.\<close>

fun reduceLength :: "real \<times> real \<Rightarrow> (real \<times> real) list \<Rightarrow> real \<Rightarrow> real" where
  "reduceLength p [] total' = total'"
| "reduceLength p (c # rest) total' =
     reduceLength c rest (total' + hypot (fst c - fst p) (snd c - snd p))"

text \<open>\<^verbatim>\<open>getArrowPoints\<close>. Destructuring \<^verbatim>\<open>points[points.length - 1]\<close> of an empty array throws
  a \<^verbatim>\<open>TypeError\<close>. When the last two points coincide \<^verbatim>\<open>distance\<close> is 0, both quotients are
  \<open>0 / 0\<close>, and the four wing coordinates are \<^verbatim>\<open>NaN\<close>.\<close>

definition getArrowPoints :: "element \<Rightarrow> error + real option list" where
  "getArrowPoints element =
     (if points element = [] then Inl TypeError
      else
        (let (x1, y1) = (if length (points element) \<ge> 2
                         then points element ! (length (points element) - 2) else (0, 0));
             (x2, y2) = points element ! (length (points element) - 1);
             size = 30;
             distance = hypot (x2 - x1) (y2 - y1);
             arrowLength = reduceLength (0, 0) (points element) 0;
             minSize = min size (arrowLength / 2)
         in if distance = 0
            then Inr [Some x2, Some y2, None, None, None, None]
            else
              (let xs = x2 - ((x2 - x1) / distance) * minSize;
                   ys = y2 - ((y2 - y1) / distance) * minSize;
                   angle = 20;
                   (x3, y3) = rotatePoint xs ys x2 y2 ((- angle * pi) / 180);
                   (x4, y4) = rotatePoint xs ys x2 y2 ((angle * pi) / 180)
               in Inr [Some x2, Some y2, Some x3, Some y3, Some x4, Some y4])))"

text \<open>The cumulative length of a polyline, as the specification words it: the sum of the
  lengths of its segments.\<close>

fun polylineLength :: "(real \<times> real) list \<Rightarrow> real" where
  "polylineLength (p # q # rest) =
     hypot (fst q - fst p) (snd q - snd p) + polylineLength (q # rest)"
| "polylineLength _ = 0"


text \<open>Elements on which the functions are run below.\<close>

definition arrowFresh :: element where
  "arrowFresh = \<lparr>elementType = ''arrow'', elementX = 0, elementY = 0, width = 0, height = 0,
                 backgroundColor = ''transparent'', points = [(0, 0)]\<rparr>"

definition arrowBent :: element where
  "arrowBent = \<lparr>elementType = ''arrow'', elementX = 0, elementY = 0, width = 3, height = 4,
                backgroundColor = ''transparent'', points = [(0, 0), (3, 0), (3, 4)]\<rparr>"

definition diamond2 :: element where
  "diamond2 = \<lparr>elementType = ''diamond'', elementX = 0, elementY = 0, width = 2, height = 2,
                backgroundColor = ''transparent'', points = []\<rparr>"

definition diamond40 :: element where
  "diamond40 = \<lparr>elementType = ''diamond'', elementX = 0, elementY = 0, width = 40, height = 21,
                 backgroundColor = ''transparent'', points = []\<rparr>"


section \<open>Hit testing (src/element/collision.ts)\<close>

subsection \<open>Double-precision numbers\<close>

text \<open>
  \<^verbatim>\<open>hitTest\<close> returns the outcome of comparisons between numbers that it has computed, so
  here a JavaScript number is a double-precision number (IEEE 754 binary64): a finite
  double, which is a real number, one of the two infinities, or \<^verbatim>\<open>NaN\<close>. The two zeros are
  one value: they compare equal, and sums, differences and products that differ only in the
  sign of a zero compare alike.
\<close>

datatype number = Finite real | PosInfinity | NegInfinity | NaN

text \<open>Rounding of a real number to the nearest integer, a tie to the even one.\<close>

definition roundHalfEven :: "real \<Rightarrow> int" where
  "roundHalfEven q =
     (let f = \<lfloor>q\<rfloor>; d = q - of_int f
      in if d < 1 / 2 then f else if 1 / 2 < d then f + 1 else if even f then f else f + 1)"

text \<open>The rounding of binary64 arithmetic (round to nearest, ties to even) with the range of
  the exponent unbounded above: a non-zero \<open>r\<close> with \<open>2 powi E \<le> \<bar>r\<bar> < 2 powi (E + 1)\<close> is
  rounded to a multiple of \<open>2 powi (E - 52)\<close> (a significand of 53 bits), and to a multiple
  of \<open>2 powi (- 1074)\<close> in the range of the subnormal numbers.\<close>

definition roundDouble :: "real \<Rightarrow> real" where
  "roundDouble r =
     (if r = 0 then 0
      else (let e = max (\<lfloor>log 2 \<bar>r\<bar>\<rfloor> - 52) (- 1074)
            in of_int (roundHalfEven (r / 2 powi e)) * 2 powi e))"

text \<open>The largest finite double, \<^verbatim>\<open>Number.MAX_VALUE\<close>. A result whose rounding exceeds it
  in magnitude is an infinity.\<close>

definition maxDouble :: real where
  "maxDouble = 2 ^ 1024 - 2 ^ 971"

definition roundNumber :: "real \<Rightarrow> number" where
  "roundNumber r =
     (let v = roundDouble r
      in if maxDouble < v then PosInfinity else if v < - maxDouble then NegInfinity else Finite v)"

text \<open>The real numbers that are finite doubles.\<close>

definition isDouble :: "real \<Rightarrow> bool" where
  "isDouble r \<longleftrightarrow> roundDouble r = r \<and> \<bar>r\<bar> \<le> maxDouble"

text \<open>The operators \<^verbatim>\<open>-\<close> (unary), \<^verbatim>\<open>+\<close>, \<^verbatim>\<open>-\<close>, \<^verbatim>\<open>*\<close>, \<^verbatim>\<open><\<close>, \<^verbatim>\<open><=\<close>, \<^verbatim>\<open>>\<close> and \<^verbatim>\<open>>=\<close> on
  numbers. Every operation on \<^verbatim>\<open>NaN\<close> is \<^verbatim>\<open>NaN\<close> and every comparison with \<^verbatim>\<open>NaN\<close> is
  false.\<close>

fun nneg :: "number \<Rightarrow> number" where
  "nneg (Finite a) = Finite (- a)"
| "nneg PosInfinity = NegInfinity"
| "nneg NegInfinity = PosInfinity"
| "nneg NaN = NaN"

fun nadd :: "number \<Rightarrow> number \<Rightarrow> number" where
  "nadd (Finite a) (Finite b) = roundNumber (a + b)"
| "nadd NaN _ = NaN"
| "nadd _ NaN = NaN"
| "nadd PosInfinity NegInfinity = NaN"
| "nadd NegInfinity PosInfinity = NaN"
| "nadd PosInfinity _ = PosInfinity"
| "nadd _ PosInfinity = PosInfinity"
| "nadd NegInfinity _ = NegInfinity"
| "nadd _ NegInfinity = NegInfinity"

definition nsub :: "number \<Rightarrow> number \<Rightarrow> number" where
  "nsub a b = nadd a (nneg b)"

fun nsign :: "number \<Rightarrow> int" where
  "nsign (Finite a) = (if a < 0 then - 1 else if a = 0 then 0 else 1)"
| "nsign PosInfinity = 1"
| "nsign NegInfinity = - 1"
| "nsign NaN = 0"

fun nmul :: "number \<Rightarrow> number \<Rightarrow> number" where
  "nmul (Finite a) (Finite b) = roundNumber (a * b)"
| "nmul NaN _ = NaN"
| "nmul _ NaN = NaN"
| "nmul a b =
     (if nsign a * nsign b = 0 then NaN
      else if 0 < nsign a * nsign b then PosInfinity else NegInfinity)"

fun nless :: "number \<Rightarrow> number \<Rightarrow> bool" where
  "nless (Finite a) (Finite b) = (a < b)"
| "nless NaN _ = False"
| "nless _ NaN = False"
| "nless _ NegInfinity = False"
| "nless PosInfinity _ = False"
| "nless NegInfinity _ = True"
| "nless _ PosInfinity = True"

fun nlessEq :: "number \<Rightarrow> number \<Rightarrow> bool" where
  "nlessEq (Finite a) (Finite b) = (a \<le> b)"
| "nlessEq NaN _ = False"
| "nlessEq _ NaN = False"
| "nlessEq NegInfinity _ = True"
| "nlessEq _ PosInfinity = True"
| "nlessEq _ NegInfinity = False"
| "nlessEq PosInfinity _ = False"

definition ngreater :: "number \<Rightarrow> number \<Rightarrow> bool" where
  "ngreater a b = nless b a"

definition ngreaterEq :: "number \<Rightarrow> number \<Rightarrow> bool" where
  "ngreaterEq a b = nlessEq b a"

subsection \<open>The function \<^verbatim>\<open>hitTest\<close>\<close>

text \<open>\<^verbatim>\<open>getElementAbsoluteCoords\<close> (src/element/bounds.ts). The fields of an element are
  finite doubles. For an arrow or a line the bounds are read off the cached rough.js shape
  by \<^verbatim>\<open>getLinearElementAbsoluteBounds\<close>, which is the parameter \<open>linearBounds\<close> here.\<close>

definition getElementAbsoluteCoords ::
    "(element \<Rightarrow> number \<times> number \<times> number \<times> number) \<Rightarrow> element
       \<Rightarrow> number \<times> number \<times> number \<times> number" where
  "getElementAbsoluteCoords linearBounds element =
     (if elementType element = ''arrow'' \<or> elementType element = ''line''
      then linearBounds element
      else (Finite (elementX element), Finite (elementY element),
            nadd (Finite (elementX element)) (Finite (width element)),
            nadd (Finite (elementY element)) (Finite (height element))))"

text \<open>Reading position \<open>k\<close> of an array in a destructuring pattern: \<^verbatim>\<open>undefined\<close> beyond the
  end, which the arithmetic of the callee turns into \<^verbatim>\<open>NaN\<close>.\<close>

definition nthOrUndefined :: "number list \<Rightarrow> nat \<Rightarrow> number" where
  "nthOrUndefined xs k = (if k < length xs then xs ! k else NaN)"

definition lineThreshold :: number where
  "lineThreshold = Finite 10"

text \<open>
  \<^verbatim>\<open>hitTest\<close>. The query point \<open>(x, y)\<close> is a pair of finite doubles. What \<^verbatim>\<open>hitTest\<close> takes
  from elsewhere and this section does not determine is a parameter:

    \<^item> \<open>ellipseBranch\<close>: the branch of the ellipse, an iteration with divisions and
      \<^verbatim>\<open>Math.hypot\<close>;
    \<^item> \<open>distance\<close>: \<^verbatim>\<open>distanceBetweenPointAndSegment\<close> of the module \<^verbatim>\<open>math\<close>, whose result
      is a double computed by \<^verbatim>\<open>Math.hypot\<close>, which the language leaves to the
      implementation to approximate;
    \<^item> \<open>diamondPoints\<close>: \<^verbatim>\<open>getDiamondPoints\<close> of src/element/bounds.ts as a function to
      doubles (the previous section gives the exact values of its formulas);
    \<^item> \<open>arrowPoints\<close>: \<^verbatim>\<open>getArrowPoints\<close> as \<^verbatim>\<open>collision.ts\<close> was written against it. The
      branch of the arrow destructures eight numbers, the two ends of the shaft and the two
      wings; the function of that shape is the one of the single-file version of the
      program (the second part of src/zindex.ts), whereas \<^verbatim>\<open>getArrowPoints\<close> of
      src/element/bounds.ts, modelled in the previous section, is a later one that
      returns six;
    \<^item> \<open>linearBounds\<close>, as above.

  The operators \<^verbatim>\<open>&&\<close> and \<^verbatim>\<open>||\<close> are \<open>\<and>\<close> and \<open>\<or>\<close>: their operands have no effect and do
  not throw. There is no branch for the type \<^verbatim>\<open>line\<close>: it falls through to the \<^verbatim>\<open>throw\<close>.
\<close>

definition hitTest ::
    "(element \<Rightarrow> real \<Rightarrow> real \<Rightarrow> bool)
       \<Rightarrow> (number \<Rightarrow> number \<Rightarrow> number \<Rightarrow> number \<Rightarrow> number \<Rightarrow> number \<Rightarrow> number)
       \<Rightarrow> (element \<Rightarrow> number \<times> number \<times> number \<times> number \<times> number \<times> number \<times> number \<times> number)
       \<Rightarrow> (element \<Rightarrow> error + number list)
       \<Rightarrow> (element \<Rightarrow> number \<times> number \<times> number \<times> number)
       \<Rightarrow> element \<Rightarrow> real \<Rightarrow> real \<Rightarrow> error + bool" where
  "hitTest ellipseBranch distance diamondPoints arrowPoints linearBounds element x y =
     (if elementType element = ''ellipse'' then Inr (ellipseBranch element x y)
      else if elementType element = ''rectangle'' then
        (case getElementAbsoluteCoords linearBounds element of (x1, y1, x2, y2) \<Rightarrow>
           if backgroundColor element \<noteq> ''transparent''
           then Inr (ngreater (Finite x) (nsub x1 lineThreshold)
                     \<and> nless (Finite x) (nadd x2 lineThreshold)
                     \<and> ngreater (Finite y) (nsub y1 lineThreshold)
                     \<and> nless (Finite y) (nadd y2 lineThreshold))
           else Inr (nless (distance (Finite x) (Finite y) x1 y1 x2 y1) lineThreshold
                     \<or> nless (distance (Finite x) (Finite y) x2 y1 x2 y2) lineThreshold
                     \<or> nless (distance (Finite x) (Finite y) x2 y2 x1 y2) lineThreshold
                     \<or> nless (distance (Finite x) (Finite y) x1 y2 x1 y1) lineThreshold))
      else if elementType element = ''diamond'' then
        (let x = nsub (Finite x) (Finite (elementX element));
             y = nsub (Finite y) (Finite (elementY element)) in
         case diamondPoints element of
           (topX, topY, rightX, rightY, bottomX, bottomY, leftX, leftY) \<Rightarrow>
             if backgroundColor element \<noteq> ''transparent''
             then
               (let (bottomY, topY) =
                      (if ngreater topY bottomY then (topY, bottomY) else (bottomY, topY));
                    (leftX, rightX) =
                      (if nless rightX leftX then (rightX, leftX) else (leftX, rightX));
                    topY = nsub topY lineThreshold;
                    bottomY = nadd bottomY lineThreshold;
                    leftX = nsub leftX lineThreshold;
                    rightX = nadd rightX lineThreshold
                in Inr (nlessEq (nsub (nmul (nsub leftX topX) (nsub y leftY))
                                      (nmul (nsub leftX x) (nsub topY leftY))) (Finite 0)
                        \<and> nlessEq (nsub (nmul (nsub topX rightX) (nsub y rightY))
                                        (nmul (nsub x rightX) (nsub topY rightY))) (Finite 0)
                        \<and> nlessEq (nsub (nmul (nsub rightX bottomX) (nsub y bottomY))
                                        (nmul (nsub x bottomX) (nsub rightY bottomY))) (Finite 0)
                        \<and> nlessEq (nsub (nmul (nsub bottomX leftX) (nsub y leftY))
                                        (nmul (nsub x leftX) (nsub bottomY leftY))) (Finite 0)))
             else Inr (nless (distance x y topX topY rightX rightY) lineThreshold
                       \<or> nless (distance x y rightX rightY bottomX bottomY) lineThreshold
                       \<or> nless (distance x y bottomX bottomY leftX leftY) lineThreshold
                       \<or> nless (distance x y leftX leftY topX topY) lineThreshold))
      else if elementType element = ''arrow'' then
        (case arrowPoints element of
           Inl e \<Rightarrow> Inl e
         | Inr ps \<Rightarrow>
             (let x1 = nthOrUndefined ps 0; y1 = nthOrUndefined ps 1;
                  x2 = nthOrUndefined ps 2; y2 = nthOrUndefined ps 3;
                  x3 = nthOrUndefined ps 4; y3 = nthOrUndefined ps 5;
                  x4 = nthOrUndefined ps 6; y4 = nthOrUndefined ps 7;
                  x = nsub (Finite x) (Finite (elementX element));
                  y = nsub (Finite y) (Finite (elementY element))
              in Inr (nless (distance x y x3 y3 x2 y2) lineThreshold
                      \<or> nless (distance x y x1 y1 x2 y2) lineThreshold
                      \<or> nless (distance x y x4 y4 x2 y2) lineThreshold)))
      else if elementType element = ''text'' then
        (case getElementAbsoluteCoords linearBounds element of (x1, y1, x2, y2) \<Rightarrow>
           Inr (ngreaterEq (Finite x) x1 \<and> nlessEq (Finite x) x2
                \<and> ngreaterEq (Finite y) y1 \<and> nlessEq (Finite y) y2))
      else if elementType element = ''selection'' then Inr False
      else Inl (Unimplemented (elementType element)))"

text \<open>\<^verbatim>\<open>hitTest\<close> on a rectangle uses none of the parameters; these values stand for them
  where it is run.\<close>

abbreviation hitTestRectangle :: "element \<Rightarrow> real \<Rightarrow> real \<Rightarrow> error + bool" where
  "hitTestRectangle \<equiv>
     hitTest (\<lambda>element x y. False) (\<lambda>x y x1 y1 x2 y2. NaN)
       (\<lambda>element. (NaN, NaN, NaN, NaN, NaN, NaN, NaN, NaN)) (\<lambda>element. Inl TypeError)
       (\<lambda>element. (NaN, NaN, NaN, NaN))"

text \<open>Rectangles and a coordinate on which \<^verbatim>\<open>hitTest\<close> is run below. The coordinate \<open>x\<close> of
  \<open>rectThreeTenths\<close> is the double nearest to 0.3 (the value of the literal \<^verbatim>\<open>0.3\<close>) and
  \<open>pointNearLeftSide\<close> is the double nearest to -9.7 (the value of \<^verbatim>\<open>-9.7\<close>).\<close>

definition rect100 :: element where
  "rect100 = \<lparr>elementType = ''rectangle'', elementX = 0, elementY = 0, width = 100, height = 50,
               backgroundColor = ''#ffffff'', points = []\<rparr>"

definition rectThreeTenths :: element where
  "rectThreeTenths =
     \<lparr>elementType = ''rectangle'', elementX = 5404319552844595 / 18014398509481984,
      elementY = 0, width = 100, height = 50, backgroundColor = ''#ffffff'', points = []\<rparr>"

definition pointNearLeftSide :: real where
  "pointNearLeftSide = - (2730307274093363 / 281474976710656)"


section \<open>Resizing by an edge handle (src/index.tsx, the cases n, w, s, e of the resize switch)\<close>

text \<open>
  The four cases sort a shallow copy of \<^verbatim>\<open>element.points\<close> by one coordinate and then
  write to the points of the copy. The copy shares the point arrays with
  \<^verbatim>\<open>element.points\<close>, whose entries are distinct arrays (each is created by its own
  \<^verbatim>\<open>push([x, y])\<close>), so the write to the point of rank \<open>i\<close> changes exactly one entry of
  \<^verbatim>\<open>element.points\<close>. The sorted copy is therefore modelled by the positions in
  \<^verbatim>\<open>element.points\<close> in sorted order; \<^verbatim>\<open>Array.prototype.sort\<close> is stable, as \<open>sort_key\<close>
  is.
\<close>

datatype edgeHandle = HandleN | HandleW | HandleS | HandleE

definition sortedOrder :: "(real \<times> real \<Rightarrow> real) \<Rightarrow> (real \<times> real) list \<Rightarrow> nat list" where
  "sortedOrder key pts = sort_key (\<lambda>j. key (pts ! j)) [0..<length pts]"

text \<open>\<^verbatim>\<open>for (let i = start; i < points.length; ++i) { const pnt = points[i]; ... }\<close> where the
  body changes \<^verbatim>\<open>pnt\<close> by \<^verbatim>\<open>delta / (len - i)\<close>; \<open>upd\<close> is the assignment of the body.\<close>

function adjustLoop ::
    "(real \<times> real \<Rightarrow> real \<Rightarrow> real \<times> real) \<Rightarrow> nat list \<Rightarrow> nat \<Rightarrow> real \<Rightarrow> nat
       \<Rightarrow> (real \<times> real) list \<Rightarrow> (real \<times> real) list" where
  "adjustLoop upd order' len delta i pts =
     (if i < length order'
      then adjustLoop upd order' len delta (i + 1)
             (pts[order' ! i := upd (pts ! (order' ! i)) (delta / real (len - i))])
      else pts)"
  by pat_completeness auto
termination
  by (relation "measure (\<lambda>(upd, order', len, delta, i, pts). length order' - i)") auto

declare adjustLoop.simps [simp del]

definition resizeEdge :: "edgeHandle \<Rightarrow> real \<Rightarrow> real \<Rightarrow> element \<Rightarrow> element" where
  "resizeEdge resizeHandle deltaX deltaY element =
     (case resizeHandle of
        HandleN \<Rightarrow>
          (let element1 = element\<lparr>height := height element - deltaY,
                                    elementY := elementY element + deltaY\<rparr>
           in if length (points element1) > 0
              then element1\<lparr>points :=
                     adjustLoop (\<lambda>pnt d. (fst pnt, snd pnt - d))
                       (sortedOrder snd (points element1)) (length (points element1)) deltaY 1
                       (points element1)\<rparr>
              else element1)
      | HandleW \<Rightarrow>
          (let element1 = element\<lparr>width := width element - deltaX,
                                    elementX := elementX element + deltaX\<rparr>
           in if length (points element1) > 0
              then element1\<lparr>points :=
                     adjustLoop (\<lambda>pnt d. (fst pnt - d, snd pnt))
                       (sortedOrder fst (points element1)) (length (points element1)) deltaX 0
                       (points element1)\<rparr>
              else element1)
      | HandleS \<Rightarrow>
          (let element1 = element\<lparr>height := height element + deltaY\<rparr>
           in if length (points element1) > 0
              then element1\<lparr>points :=
                     adjustLoop (\<lambda>pnt d. (fst pnt, snd pnt + d))
                       (sortedOrder snd (points element1)) (length (points element1)) deltaY 1
                       (points element1)\<rparr>
              else element1)
      | HandleE \<Rightarrow>
          (let element1 = element\<lparr>width := width element + deltaX\<rparr>
           in if length (points element1) > 0
              then element1\<lparr>points :=
                     adjustLoop (\<lambda>pnt d. (fst pnt + d, snd pnt))
                       (sortedOrder fst (points element1)) (length (points element1)) deltaX 1
                       (points element1)\<rparr>
              else element1))"

definition lineZigzag :: element where
  "lineZigzag = \<lparr>elementType = ''line'', elementX = 10, elementY = 20, width = 30, height = 60,
                  backgroundColor = ''transparent'', points = [(0, 0), (30, 60), (15, 20)]\<rparr>"


section \<open>History: theorems\<close>

lemma pop_snoc: "pop (xs @ [x]) = (Some x, xs)"
  by (simp add: pop_def)

lemma topEntry_snoc: "topEntry (xs @ [x]) = Some x"
  by (simp add: topEntry_def)

lemma pushEntry_new:
  "topEntry (stateHistory h) \<noteq> Some e \<Longrightarrow>
     pushEntry h e = h\<lparr>stateHistory := stateHistory h @ [e], redoStack := []\<rparr>"
  by (auto simp: pushEntry_def clearRedoStack_def topEntry_def)

lemma pushEntry_same:
  "topEntry (stateHistory h) = Some e \<Longrightarrow> pushEntry h e = h"
  by (auto simp: pushEntry_def topEntry_def split: if_splits)

lemma undoOnce_snoc:
  "stateHistory h = S @ [e] \<Longrightarrow>
     undoOnce parse h =
       (restoreEntry parse (topEntry S), h\<lparr>stateHistory := S, redoStack := redoStack h @ [e]\<rparr>)"
  by (simp add: undoOnce_def pop_snoc)

lemma redoOnce_snoc:
  "redoStack h = R @ [e] \<Longrightarrow>
     redoOnce parse h =
       (restoreEntry parse (Some e), h\<lparr>redoStack := R, stateHistory := stateHistory h @ [e]\<rparr>)"
  by (simp add: redoOnce_def pop_snoc)

lemma redoOnce_empty: "redoStack h = [] \<Longrightarrow> redoOnce parse h = (None, h)"
  by (simp add: redoOnce_def)

lemma restoreEntry_parse:
  "restoreEntry parse entry = parse (case entry of None \<Rightarrow> ''undefined'' | Some s \<Rightarrow> s)"
  by (simp add: restoreEntry_def split: option.split)

text \<open>
  Claim C2. Three committed edits \<open>e1\<close>, \<open>e2\<close>, \<open>e3\<close> are pushed on a history whose undo
  stack is \<open>S\<close>, each different from the entry below it. Then three calls of \<open>undoOnce\<close>
  return the parsed snapshots \<open>e2\<close>, \<open>e1\<close> and the parsed top of \<open>S\<close> (the snapshot before
  the edits; the parse of the text \<^verbatim>\<open>undefined\<close> when \<open>S\<close> is empty) and leave the undo
  stack equal to \<open>S\<close> again; three calls of \<open>redoOnce\<close> afterwards return the parsed
  snapshots \<open>e1\<close>, \<open>e2\<close>, \<open>e3\<close> (the last is the final state) and restore the history
  that the three pushes had produced; a new entry \<open>e4\<close> pushed after one \<open>undoOnce\<close>
  empties the redo stack, so that the next \<open>redoOnce\<close> returns null and changes nothing;
  and pushing an entry equal to the top of the undo stack leaves any history unchanged, its
  redo stack included.
\<close>

theorem C2_undo_redo_three_edits:
  fixes parse :: "string \<Rightarrow> 'j option"
  assumes S: "stateHistory h = S"
    and d1: "topEntry S \<noteq> Some e1" and d2: "e2 \<noteq> e1" and d3: "e3 \<noteq> e2" and d4: "e4 \<noteq> e2"
  defines "h3 \<equiv> pushEntry (pushEntry (pushEntry h e1) e2) e3"
  defines "u1 \<equiv> undoOnce parse h3"
  defines "u2 \<equiv> undoOnce parse (snd u1)"
  defines "u3 \<equiv> undoOnce parse (snd u2)"
  defines "r1 \<equiv> redoOnce parse (snd u3)"
  defines "r2 \<equiv> redoOnce parse (snd r1)"
  defines "r3 \<equiv> redoOnce parse (snd r2)"
  defines "h4 \<equiv> pushEntry (snd u1) e4"
  shows "h3 = h\<lparr>stateHistory := S @ [e1, e2, e3], redoStack := []\<rparr>
       \<and> u1 = (parse e2, h\<lparr>stateHistory := S @ [e1, e2], redoStack := [e3]\<rparr>)
       \<and> u2 = (parse e1, h\<lparr>stateHistory := S @ [e1], redoStack := [e3, e2]\<rparr>)
       \<and> u3 = (parse (case topEntry S of None \<Rightarrow> ''undefined'' | Some e0 \<Rightarrow> e0),
                h\<lparr>stateHistory := S, redoStack := [e3, e2, e1]\<rparr>)
       \<and> (\<forall>S0 e0. S = S0 @ [e0] \<longrightarrow> fst u3 = parse e0)
       \<and> r1 = (parse e1, h\<lparr>stateHistory := S @ [e1], redoStack := [e3, e2]\<rparr>)
       \<and> r2 = (parse e2, h\<lparr>stateHistory := S @ [e1, e2], redoStack := [e3]\<rparr>)
       \<and> r3 = (parse e3, h3)
       \<and> h4 = h\<lparr>stateHistory := S @ [e1, e2, e4], redoStack := []\<rparr>
       \<and> redoOnce parse h4 = (None, h4)
       \<and> (\<forall>g e. stateHistory g \<noteq> [] \<and> last (stateHistory g) = e \<longrightarrow> pushEntry g e = g)"
proof -
  have p1: "pushEntry h e1 = h\<lparr>stateHistory := S @ [e1], redoStack := []\<rparr>"
    using S d1 by (simp add: pushEntry_new)
  have p2: "pushEntry (pushEntry h e1) e2 = h\<lparr>stateHistory := S @ [e1, e2], redoStack := []\<rparr>"
    using d2 by (simp add: p1 pushEntry_new topEntry_snoc)
  have p3: "h3 = h\<lparr>stateHistory := S @ [e1, e2, e3], redoStack := []\<rparr>"
    unfolding h3_def using d3 by (simp add: p2 pushEntry_new topEntry_def)
  have q1: "u1 = (parse e2, h\<lparr>stateHistory := S @ [e1, e2], redoStack := [e3]\<rparr>)"
    unfolding u1_def using undoOnce_snoc [of h3 "S @ [e1, e2]" e3 parse]
    by (simp add: p3 topEntry_def restoreEntry_parse)
  have q2: "u2 = (parse e1, h\<lparr>stateHistory := S @ [e1], redoStack := [e3, e2]\<rparr>)"
    unfolding u2_def using undoOnce_snoc [of "snd u1" "S @ [e1]" e2 parse]
    by (simp add: q1 topEntry_def restoreEntry_parse)
  have q3: "u3 = (parse (case topEntry S of None \<Rightarrow> ''undefined'' | Some e0 \<Rightarrow> e0),
                  h\<lparr>stateHistory := S, redoStack := [e3, e2, e1]\<rparr>)"
    unfolding u3_def using undoOnce_snoc [of "snd u2" S e1 parse]
    by (simp add: q2 restoreEntry_parse)
  have q3': "\<forall>S0 e0. S = S0 @ [e0] \<longrightarrow> fst u3 = parse e0"
    by (simp add: q3 topEntry_def)
  have s1: "r1 = (parse e1, h\<lparr>stateHistory := S @ [e1], redoStack := [e3, e2]\<rparr>)"
    unfolding r1_def using redoOnce_snoc [of "snd u3" "[e3, e2]" e1 parse]
    by (simp add: q3 restoreEntry_parse)
  have s2: "r2 = (parse e2, h\<lparr>stateHistory := S @ [e1, e2], redoStack := [e3]\<rparr>)"
    unfolding r2_def using redoOnce_snoc [of "snd r1" "[e3]" e2 parse]
    by (simp add: s1 restoreEntry_parse)
  have s3: "r3 = (parse e3, h3)"
    unfolding r3_def using redoOnce_snoc [of "snd r2" "[]" e3 parse]
    by (simp add: s2 p3 restoreEntry_parse)
  have t4: "h4 = h\<lparr>stateHistory := S @ [e1, e2, e4], redoStack := []\<rparr>"
    unfolding h4_def using d4 by (simp add: q1 pushEntry_new topEntry_def)
  have t5: "redoOnce parse h4 = (None, h4)"
    by (simp add: t4 redoOnce_empty)
  have t6: "\<forall>g e. stateHistory g \<noteq> [] \<and> last (stateHistory g) = e \<longrightarrow> pushEntry g e = g"
    by (simp add: pushEntry_def)
  from p3 q1 q2 q3 q3' s1 s2 s3 t4 t5 t6 show ?thesis
    by (intro conjI)
qed

theorem C2_undo_redo_three_edits_witness:
  "(let h = pushEntry createHistory ''[]'';
        h3 = pushEntry (pushEntry (pushEntry h ''[1]'') ''[1,2]'') ''[1,2,3]'';
        u1 = undoOnce parseBracketed h3;
        u2 = undoOnce parseBracketed (snd u1);
        u3 = undoOnce parseBracketed (snd u2);
        r1 = redoOnce parseBracketed (snd u3);
        r2 = redoOnce parseBracketed (snd r1);
        r3 = redoOnce parseBracketed (snd r2);
        h4 = pushEntry (snd u1) ''[1,2,4]''
    in stateHistory h = [''[]'']
     \<and> fst u1 = Some ''[1,2]'' \<and> fst u2 = Some ''[1]'' \<and> fst u3 = Some ''[]''
     \<and> stateHistory (snd u3) = [''[]'']
     \<and> redoStack (snd u3) = [''[1,2,3]'', ''[1,2]'', ''[1]'']
     \<and> fst r1 = Some ''[1]'' \<and> fst r2 = Some ''[1,2]'' \<and> fst r3 = Some ''[1,2,3]''
     \<and> snd r3 = h3 \<and> stateHistory h3 = [''[]'', ''[1]'', ''[1,2]'', ''[1,2,3]'']
     \<and> redoStack h4 = [] \<and> redoOnce parseBracketed h4 = (None, h4)
     \<and> redoStack (snd u1) = [''[1,2,3]''] \<and> pushEntry (snd u1) ''[1,2]'' = snd u1)"
proof -
  define h where "h = pushEntry createHistory ''[]''"
  have S: "stateHistory h = [''[]'']"
    by (simp add: h_def pushEntry_def createHistory_def clearRedoStack_def)
  have d1: "topEntry [''[]''] \<noteq> Some ''[1]''" by (simp add: topEntry_def)
  note T = C2_undo_redo_three_edits [OF S d1, of "''[1,2]''" "''[1,2,3]''" "''[1,2,4]''" parseBracketed]
  have c1: "pushEntry (pushEntry (pushEntry h ''[1]'') ''[1,2]'') ''[1,2,3]''
            = h\<lparr>stateHistory := [''[]''] @ [''[1]'', ''[1,2]'', ''[1,2,3]''], redoStack := []\<rparr>"
    using T by blast
  have c2: "undoOnce parseBracketed (pushEntry (pushEntry (pushEntry h ''[1]'') ''[1,2]'') ''[1,2,3]'')
            = (parseBracketed ''[1,2]'',
               h\<lparr>stateHistory := [''[]''] @ [''[1]'', ''[1,2]''], redoStack := [''[1,2,3]'']\<rparr>)"
    using T by blast
  have c3: "undoOnce parseBracketed
              (h\<lparr>stateHistory := [''[]''] @ [''[1]'', ''[1,2]''], redoStack := [''[1,2,3]'']\<rparr>)
            = (parseBracketed ''[1]'',
               h\<lparr>stateHistory := [''[]''] @ [''[1]''], redoStack := [''[1,2,3]'', ''[1,2]'']\<rparr>)"
    using T unfolding c2 snd_conv by blast
  have c4: "undoOnce parseBracketed
              (h\<lparr>stateHistory := [''[]''] @ [''[1]''], redoStack := [''[1,2,3]'', ''[1,2]'']\<rparr>)
            = (parseBracketed ''[]'',
               h\<lparr>stateHistory := [''[]''], redoStack := [''[1,2,3]'', ''[1,2]'', ''[1]'']\<rparr>)"
    using T unfolding c2 c3 snd_conv by (simp add: topEntry_def)
  have c5: "redoOnce parseBracketed
              (h\<lparr>stateHistory := [''[]''], redoStack := [''[1,2,3]'', ''[1,2]'', ''[1]'']\<rparr>)
            = (parseBracketed ''[1]'',
               h\<lparr>stateHistory := [''[]''] @ [''[1]''], redoStack := [''[1,2,3]'', ''[1,2]'']\<rparr>)"
    using T unfolding c2 c3 c4 snd_conv by blast
  have c6: "redoOnce parseBracketed
              (h\<lparr>stateHistory := [''[]''] @ [''[1]''], redoStack := [''[1,2,3]'', ''[1,2]'']\<rparr>)
            = (parseBracketed ''[1,2]'',
               h\<lparr>stateHistory := [''[]''] @ [''[1]'', ''[1,2]''], redoStack := [''[1,2,3]'']\<rparr>)"
    using T unfolding c2 c3 c4 c5 snd_conv by blast
  have c7: "redoOnce parseBracketed
              (h\<lparr>stateHistory := [''[]''] @ [''[1]'', ''[1,2]''], redoStack := [''[1,2,3]'']\<rparr>)
            = (parseBracketed ''[1,2,3]'',
               pushEntry (pushEntry (pushEntry h ''[1]'') ''[1,2]'') ''[1,2,3]'')"
    using T unfolding c2 c3 c4 c5 c6 snd_conv by blast
  have c8: "pushEntry
              (h\<lparr>stateHistory := [''[]''] @ [''[1]'', ''[1,2]''], redoStack := [''[1,2,3]'']\<rparr>)
              ''[1,2,4]''
            = h\<lparr>stateHistory := [''[]''] @ [''[1]'', ''[1,2]'', ''[1,2,4]''], redoStack := []\<rparr>"
    using T unfolding c2 snd_conv by blast
  have c9: "redoOnce parseBracketed
              (h\<lparr>stateHistory := [''[]''] @ [''[1]'', ''[1,2]'', ''[1,2,4]''], redoStack := []\<rparr>)
            = (None,
               h\<lparr>stateHistory := [''[]''] @ [''[1]'', ''[1,2]'', ''[1,2,4]''], redoStack := []\<rparr>)"
    using T unfolding c2 c8 snd_conv by blast
  have same: "pushEntry g e = g" if "stateHistory g \<noteq> [] \<and> last (stateHistory g) = e"
    for g :: sceneHistory and e
    using T that by blast
  have c10: "pushEntry
              (h\<lparr>stateHistory := [''[]''] @ [''[1]'', ''[1,2]''], redoStack := [''[1,2,3]'']\<rparr>)
              ''[1,2]''
            = h\<lparr>stateHistory := [''[]''] @ [''[1]'', ''[1,2]''], redoStack := [''[1,2,3]'']\<rparr>"
    by (rule same) simp
  have p: "parseBracketed ''[]'' = Some ''[]''" "parseBracketed ''[1]'' = Some ''[1]''"
    "parseBracketed ''[1,2]'' = Some ''[1,2]''" "parseBracketed ''[1,2,3]'' = Some ''[1,2,3]''"
    by (simp_all add: parseBracketed_def)
  show ?thesis
    unfolding Let_def h_def [symmetric] c2 snd_conv fst_conv c3 c4 c5 c6 c7 c8 c9 c10 p
    by (simp add: S c1)
qed

text \<open>
  Claim C3 (as amended). When the entry that \<open>undoOnce\<close> (respectively \<open>redoOnce\<close>) hands to
  \<open>restoreEntry\<close> does not parse, the operation returns null, and the stacks are advanced
  all the same, exactly as by a successful step: \<open>undoOnce\<close> has moved the top of the undo
  stack to the redo stack, \<open>redoOnce\<close> has moved the top of the redo stack to the undo stack
  (both pop and push before \<open>restoreEntry\<close> is called).
\<close>

theorem C3_unparsable_entry_still_advances:
  fixes parse :: "string \<Rightarrow> 'j option"
  shows "(stateHistory h \<noteq> [] \<and> restoreEntry parse (topEntry (butlast (stateHistory h))) = None
            \<longrightarrow> undoOnce parse h =
                  (None, h\<lparr>stateHistory := butlast (stateHistory h),
                            redoStack := redoStack h @ [last (stateHistory h)]\<rparr>))
       \<and> (redoStack h \<noteq> [] \<and> restoreEntry parse (topEntry (redoStack h)) = None
            \<longrightarrow> redoOnce parse h =
                  (None, h\<lparr>redoStack := butlast (redoStack h),
                            stateHistory := stateHistory h @ [last (redoStack h)]\<rparr>))"
proof (intro conjI impI)
  assume a: "stateHistory h \<noteq> [] \<and> restoreEntry parse (topEntry (butlast (stateHistory h))) = None"
  then have "stateHistory h = butlast (stateHistory h) @ [last (stateHistory h)]"
    by simp
  from undoOnce_snoc [OF this, of parse] a
  show "undoOnce parse h =
          (None, h\<lparr>stateHistory := butlast (stateHistory h),
                    redoStack := redoStack h @ [last (stateHistory h)]\<rparr>)"
    by simp
next
  assume a: "redoStack h \<noteq> [] \<and> restoreEntry parse (topEntry (redoStack h)) = None"
  then have "redoStack h = butlast (redoStack h) @ [last (redoStack h)]"
    by simp
  from redoOnce_snoc [OF this, of parse] a
  show "redoOnce parse h =
          (None, h\<lparr>redoStack := butlast (redoStack h),
                    stateHistory := stateHistory h @ [last (redoStack h)]\<rparr>)"
    by (auto simp: topEntry_def)
qed

theorem C3_unparsable_entry_still_advances_witness:
  "undoOnce parseTiny \<lparr>recording = True, stateHistory = [''junk'', ''[]''], redoStack = []\<rparr>
     = (None, \<lparr>recording = True, stateHistory = [''junk''], redoStack = [''[]'']\<rparr>)
   \<and> redoOnce parseTiny \<lparr>recording = True, stateHistory = [''[]''], redoStack = [''junk'']\<rparr>
     = (None, \<lparr>recording = True, stateHistory = [''[]'', ''junk''], redoStack = []\<rparr>)"
  using C3_unparsable_entry_still_advances
          [of "\<lparr>recording = True, stateHistory = [''junk'', ''[]''], redoStack = []\<rparr>" parseTiny]
        C3_unparsable_entry_still_advances
          [of "\<lparr>recording = True, stateHistory = [''[]''], redoStack = [''junk'']\<rparr>" parseTiny]
  by (simp add: restoreEntry_def topEntry_def parseTiny_def)

text \<open>
  The claim as the specification words it fails: with the undo stack \<open>[''junk'', ''[]'']\<close>
  the entry to restore, \<open>''junk''\<close>, does not parse, \<open>undoOnce\<close> returns null, and both
  stacks have changed; likewise for \<open>redoOnce\<close> with \<open>''junk''\<close> on the redo stack.
\<close>

theorem C3_stacks_unchanged_counterexample:
  "restoreEntry parseTiny (topEntry (butlast [''junk'', ''[]''])) = None
   \<and> fst (undoOnce parseTiny \<lparr>recording = True, stateHistory = [''junk'', ''[]''], redoStack = []\<rparr>)
       = None
   \<and> stateHistory (snd (undoOnce parseTiny
        \<lparr>recording = True, stateHistory = [''junk'', ''[]''], redoStack = []\<rparr>))
       \<noteq> [''junk'', ''[]'']
   \<and> redoStack (snd (undoOnce parseTiny
        \<lparr>recording = True, stateHistory = [''junk'', ''[]''], redoStack = []\<rparr>))
       \<noteq> []
   \<and> restoreEntry parseTiny (topEntry [''junk'']) = None
   \<and> fst (redoOnce parseTiny \<lparr>recording = True, stateHistory = [''[]''], redoStack = [''junk'']\<rparr>)
       = None
   \<and> stateHistory (snd (redoOnce parseTiny
        \<lparr>recording = True, stateHistory = [''[]''], redoStack = [''junk'']\<rparr>))
       \<noteq> [''[]'']
   \<and> redoStack (snd (redoOnce parseTiny
        \<lparr>recording = True, stateHistory = [''[]''], redoStack = [''junk'']\<rparr>))
       \<noteq> [''junk'']"
  by (simp add: undoOnce_def redoOnce_def pop_def restoreEntry_def topEntry_def parseTiny_def)


section \<open>Restacking: theorems\<close>

lemma aat_setAt: "aat (setAt a i v) j = (if j = i then v else aat a j)"
  by (simp add: setAt_def)

lemma alen_setAt: "i < int (alen a) \<Longrightarrow> alen (setAt a i v) = alen a"
  by (simp add: setAt_def)

lemma aat_swap:
  "aat (swap a x y) j = (if j = y then aat a x else if j = x then aat a y else aat a j)"
  by (simp add: swap_def Let_def setAt_def getAt_def)

lemma alen_swap: "x < int (alen a) \<Longrightarrow> y < int (alen a) \<Longrightarrow> alen (swap a x y) = alen a"
  by (simp add: swap_def Let_def setAt_def getAt_def)

lemma aat_fromList: "aat (fromList xs) i = (if 0 \<le> i \<and> i < int (length xs) then Some (xs ! nat i) else None)"
  by (simp add: fromList_def)

lemma alen_fromList: "alen (fromList xs) = length xs"
  by (simp add: fromList_def)

lemma aat_shiftRightLoop:
  "1 \<le> i \<Longrightarrow>
   aat (shiftRightLoop a pos index i) p =
     (if index + int i \<le> p \<and> p \<le> pos + int i then aat a (p - int i) else aat a p)"
proof (induction a pos index i rule: shiftRightLoop.induct)
  case (1 elements pos index i)
  show ?case
  proof (cases "pos \<ge> index")
    case True
    with 1 show ?thesis
      by (subst shiftRightLoop.simps) (auto simp: aat_setAt getAt_def)
  next
    case False
    then show ?thesis by (subst shiftRightLoop.simps) auto
  qed
qed

lemma alen_shiftRightLoop:
  "pos + int i < int (alen a) \<Longrightarrow> alen (shiftRightLoop a pos index i) = alen a"
proof (induction a pos index i rule: shiftRightLoop.induct)
  case (1 elements pos index i)
  show ?case
  proof (cases "pos \<ge> index")
    case True
    with 1 show ?thesis
      by (subst shiftRightLoop.simps) (simp add: alen_setAt)
  next
    case False
    then show ?thesis by (subst shiftRightLoop.simps) auto
  qed
qed

lemma aat_shiftLeftLoop:
  "1 \<le> i \<Longrightarrow>
   aat (shiftLeftLoop a pos index i) p =
     (if pos - int i \<le> p \<and> p < index - int i then aat a (p + int i) else aat a p)"
proof (induction a pos index i rule: shiftLeftLoop.induct)
  case (1 elements pos index i)
  show ?case
  proof (cases "pos < index")
    case True
    with 1 show ?thesis
      by (subst shiftLeftLoop.simps) (auto simp: aat_setAt getAt_def)
  next
    case False
    then show ?thesis by (subst shiftLeftLoop.simps) auto
  qed
qed

lemma alen_shiftLeftLoop:
  "index - int i \<le> int (alen a) \<Longrightarrow> alen (shiftLeftLoop a pos index i) = alen a"
proof (induction a pos index i rule: shiftLeftLoop.induct)
  case (1 elements pos index i)
  show ?case
  proof (cases "pos < index")
    case True
    with 1 show ?thesis
      by (subst shiftLeftLoop.simps) (simp add: alen_setAt)
  next
    case False
    then show ?thesis by (subst shiftLeftLoop.simps) auto
  qed
qed


lemma moveAllLeft_outer:
  fixes orig :: "int \<Rightarrow> 'a option"
  assumes "R = pre @ ms @ [0]" "pre \<noteq> []"
    and "sorted_wrt (>) (last pre # ms)" "\<forall>m\<in>set ms. 0 \<le> m"
    and "\<forall>p < last pre. aat a p = orig p"
  shows "(\<forall>j. 0 \<le> j \<and> j < last pre \<and> j \<notin> set ms \<longrightarrow>
            aat (forEachFrom (moveAllLeftStep R) (length pre) (ms @ [0]) a)
              (j + int (length pre) + int (length (filter (\<lambda>m. j < m) ms))) = orig j)
       \<and> (\<forall>p. p \<ge> last pre + int (length pre) \<longrightarrow>
            aat (forEachFrom (moveAllLeftStep R) (length pre) (ms @ [0]) a) p = aat a p)
       \<and> (last pre + int (length pre) \<le> int (alen a) \<longrightarrow>
            alen (forEachFrom (moveAllLeftStep R) (length pre) (ms @ [0]) a) = alen a)"
  using assms
proof (induction ms arbitrary: pre a)
  case Nil
  have pos: "1 \<le> length pre" using Nil.prems(2) by (cases pre) auto
  have nth: "R ! (length pre - 1) = last pre"
    using Nil.prems(1,2) by (simp add: nth_append last_conv_nth)
  have step: "forEachFrom (moveAllLeftStep R) (length pre) ([] @ [0]) a
                = shiftRightLoop a (last pre - 1) 0 (length pre)"
    using pos nth Nil.prems(2) by (simp add: moveAllLeftStep_def)
  show ?case
    unfolding step using Nil.prems(5) pos
    by (auto simp: aat_shiftRightLoop alen_shiftRightLoop)
next
  case (Cons m ms)
  have pos: "1 \<le> length pre" using Cons.prems(2) by (cases pre) auto
  have nth: "R ! (length pre - 1) = last pre"
    using Cons.prems(1,2) by (simp add: nth_append last_conv_nth)
  define a1 where "a1 = shiftRightLoop a (last pre - 1) m (length pre)"
  have step: "forEachFrom (moveAllLeftStep R) (length pre) ((m # ms) @ [0]) a
                = forEachFrom (moveAllLeftStep R) (length (pre @ [m])) (ms @ [0]) a1"
    using pos nth Cons.prems(2) by (simp add: moveAllLeftStep_def a1_def)
  have m_lt: "m < last pre" and m_ge: "0 \<le> m" using Cons.prems(3,4) by auto
  have a1_at: "\<And>p. aat a1 p =
      (if m + int (length pre) \<le> p \<and> p \<le> last pre - 1 + int (length pre)
       then aat a (p - int (length pre)) else aat a p)"
    unfolding a1_def using pos by (simp add: aat_shiftRightLoop)
  have a1_len: "last pre + int (length pre) \<le> int (alen a) \<Longrightarrow> alen a1 = alen a"
    unfolding a1_def by (simp add: alen_shiftRightLoop)
  have IH: "(\<forall>j. 0 \<le> j \<and> j < m \<and> j \<notin> set ms \<longrightarrow>
            aat (forEachFrom (moveAllLeftStep R) (length (pre @ [m])) (ms @ [0]) a1)
              (j + int (length (pre @ [m])) + int (length (filter (\<lambda>m. j < m) ms))) = orig j)
       \<and> (\<forall>p. p \<ge> m + int (length (pre @ [m])) \<longrightarrow>
            aat (forEachFrom (moveAllLeftStep R) (length (pre @ [m])) (ms @ [0]) a1) p = aat a1 p)
       \<and> (m + int (length (pre @ [m])) \<le> int (alen a1) \<longrightarrow>
            alen (forEachFrom (moveAllLeftStep R) (length (pre @ [m])) (ms @ [0]) a1) = alen a1)"
    using Cons.IH [of "pre @ [m]" a1] Cons.prems a1_at by auto
  let ?r = "forEachFrom (moveAllLeftStep R) (length (pre @ [m])) (ms @ [0]) a1"
  have c1: "aat ?r (j + int (length pre) + int (length (filter (\<lambda>k. j < k) (m # ms)))) = orig j"
    if j: "0 \<le> j" "j < last pre" "j \<notin> set (m # ms)" for j
  proof (cases "j < m")
    case True
    then show ?thesis using IH j by (auto simp: algebra_simps)
  next
    case False
    then have jm: "m < j" using j by auto
    have "\<forall>k\<in>set ms. k < m" using Cons.prems(3) by auto
    then have f: "filter (\<lambda>k. j < k) (m # ms) = []"
      using jm by (auto simp: filter_empty_conv)
    have "aat ?r (j + int (length pre)) = aat a1 (j + int (length pre))"
      using IH jm by auto
    also have "\<dots> = aat a j" using jm j by (simp add: a1_at)
    also have "\<dots> = orig j" using Cons.prems(5) j by auto
    finally show ?thesis unfolding f by simp
  qed
  have c2: "aat ?r p = aat a p" if "p \<ge> last pre + int (length pre)" for p
  proof -
    have "aat ?r p = aat a1 p" using IH that m_lt by auto
    then show ?thesis using that by (simp add: a1_at)
  qed
  have c3: "alen ?r = alen a" if "last pre + int (length pre) \<le> int (alen a)"
    using IH a1_len that m_lt by auto
  show ?case unfolding step using c1 c2 c3 by blast
qed

lemma fillLeftStep_apply: "fillLeftStep e i a = setAt a (int i) e"
  by (simp add: fillLeftStep_def)

lemma aat_fillLeft:
  "aat (forEachFrom fillLeftStep i L a) p =
     (if int i \<le> p \<and> p < int i + int (length L) then L ! nat (p - int i) else aat a p)"
proof (induction L arbitrary: i a)
  case Nil
  then show ?case by auto
next
  case (Cons x L)
  have step: "forEachFrom fillLeftStep i (x # L) a
                = forEachFrom fillLeftStep (Suc i) L (setAt a (int i) x)"
    by (simp add: fillLeftStep_apply)
  have "int i < p \<Longrightarrow> nat (p - int i) = Suc (nat (p - int (Suc i)))" by simp
  then show ?case
    unfolding step Cons.IH by (auto simp: aat_setAt)
qed

lemma alen_fillLeft:
  "int i + int (length L) \<le> int (alen a) \<Longrightarrow> alen (forEachFrom fillLeftStep i L a) = alen a"
proof (induction L arbitrary: i a)
  case Nil
  then show ?case by simp
next
  case (Cons x L)
  have step: "forEachFrom fillLeftStep i (x # L) a
                = forEachFrom fillLeftStep (Suc i) L (setAt a (int i) x)"
    by (simp add: fillLeftStep_apply)
  have "alen (setAt a (int i) x) = alen a" using Cons.prems by (simp add: alen_setAt)
  then show ?case
    unfolding step using Cons.IH [of "Suc i" "setAt a (int i) x"] Cons.prems by simp
qed

lemma sorted_idx_count:
  fixes L :: "nat list"
  assumes "sorted_wrt (<) L" "q < length L"
  shows "length (filter (\<lambda>t. t < L ! q) L) = q"
proof -
  have split: "L = take q L @ L ! q # drop (Suc q) L"
    using assms(2) by (rule id_take_nth_drop)
  have s: "sorted_wrt (<) (take q L @ L ! q # drop (Suc q) L)"
    using assms(1) split by simp
  have lo: "\<forall>x\<in>set (take q L). x < L ! q"
    using s by (auto simp: sorted_wrt_append)
  have hi: "\<forall>y\<in>set (drop (Suc q) L). L ! q < y"
    using s by (auto simp: sorted_wrt_append)
  have "filter (\<lambda>t. t < L ! q) L
          = filter (\<lambda>t. t < L ! q) (take q L) @ filter (\<lambda>t. t < L ! q) (L ! q # drop (Suc q) L)"
    by (subst split) simp
  also have "filter (\<lambda>t. t < L ! q) (take q L) = take q L"
    using lo by (simp add: filter_id_conv)
  also have "filter (\<lambda>t. t < L ! q) (L ! q # drop (Suc q) L) = []"
    using hi by (auto simp: filter_empty_conv)
  finally show ?thesis using assms(2) by simp
qed

lemma count_below:
  fixes "is" :: "nat list"
  assumes "distinct is" "\<forall>i\<in>set is. i < n" "j \<le> n"
  shows "length (filter (\<lambda>t. t < j) is)
           + length (filter (\<lambda>t. t < j) (filter (\<lambda>t. t \<notin> set is) [0..<n])) = j"
proof -
  have a: "length (filter (\<lambda>t. t < j) is) = card ({t. t < j} \<inter> set is)"
    using assms(1) by (simp add: distinct_length_filter)
  have b: "length (filter (\<lambda>t. t < j) (filter (\<lambda>t. t \<notin> set is) [0..<n]))
             = card ({t. t < j} - set is)"
  proof -
    have "distinct (filter (\<lambda>t. t < j) (filter (\<lambda>t. t \<notin> set is) [0..<n]))"
      by (intro distinct_filter) simp
    then have "length (filter (\<lambda>t. t < j) (filter (\<lambda>t. t \<notin> set is) [0..<n]))
            = card (set (filter (\<lambda>t. t < j) (filter (\<lambda>t. t \<notin> set is) [0..<n])))"
      by (rule distinct_card [symmetric])
    also have "set (filter (\<lambda>t. t < j) (filter (\<lambda>t. t \<notin> set is) [0..<n])) = {t. t < j} - set is"
      using assms(3) by auto
    finally show ?thesis .
  qed
  have "card ({t. t < j} \<inter> set is) + card ({t. t < j} - set is)
          = card (({t. t < j} \<inter> set is) \<union> ({t. t < j} - set is))"
    by (rule card_Un_disjoint [symmetric]) auto
  also have "({t. t < j} \<inter> set is) \<union> ({t. t < j} - set is) = {t. t < j}" by auto
  finally show ?thesis using a b by simp
qed

lemma count_split:
  fixes "is" :: "nat list"
  assumes "j \<notin> set is"
  shows "length (filter (\<lambda>t. t < j) is) + length (filter (\<lambda>t. j < t) is) = length is"
proof -
  have "\<And>t. t \<in> set is \<Longrightarrow> (j < t) = (\<not> t < j)"
    using assms by (metis not_less_iff_gr_or_eq)
  then have "filter (\<lambda>t. j < t) is = filter (\<lambda>t. \<not> t < j) is"
    by (intro filter_cong) auto
  then show ?thesis using sum_length_filter_compl [of "\<lambda>t. t < j" "is"] by simp
qed

lemma length_unselected:
  fixes "is" :: "nat list"
  assumes "distinct is" "\<forall>i\<in>set is. i < n"
  shows "length is + length (filter (\<lambda>t. t \<notin> set is) [0..<n]) = n"
proof -
  have "filter (\<lambda>t. t < n) is = is" using assms(2) by (intro filter_True) auto
  moreover have "filter (\<lambda>t. t < n) (filter (\<lambda>t. t \<notin> set is) [0..<n])
                   = filter (\<lambda>t. t \<notin> set is) [0..<n]"
    by (intro filter_True) auto
  ultimately show ?thesis using count_below [OF assms, of n] by simp
qed

lemma unselected_position:
  fixes "is" :: "nat list"
  assumes "sorted_wrt (<) is" "\<forall>i\<in>set is. i < n"
    and "q < length (filter (\<lambda>t. t \<notin> set is) [0..<n])"
  defines "j \<equiv> filter (\<lambda>t. t \<notin> set is) [0..<n] ! q"
  shows "j < n" "j \<notin> set is"
    and "length (filter (\<lambda>t. t < j) is) + q = j"
    and "j + length (filter (\<lambda>t. j < t) is) = length is + q"
proof -
  let ?ns = "filter (\<lambda>t. t \<notin> set is) [0..<n]"
  have d: "distinct is" using assms(1) by (simp add: strict_sorted_iff)
  have "j \<in> set ?ns" unfolding j_def using assms(3) by (rule nth_mem)
  then show jn: "j < n" and js: "j \<notin> set is" by auto
  have "sorted_wrt (<) ?ns" by (intro sorted_wrt_filter) simp
  then have "length (filter (\<lambda>t. t < j) ?ns) = q"
    unfolding j_def using assms(3) by (rule sorted_idx_count)
  with count_below [OF d assms(2), of j] jn
  show below: "length (filter (\<lambda>t. t < j) is) + q = j" by simp
  with count_split [OF js]
  show "j + length (filter (\<lambda>t. j < t) is) = length is + q" by simp
qed

lemma sort_map_int_id:
  fixes "is" :: "nat list"
  assumes "sorted_wrt (<) is"
  shows "sort (map int is) = map int is"
proof -
  have "sorted_wrt (<) (map int is)" using assms by (simp add: sorted_wrt_map)
  then have "sorted (map int is)" by (simp add: strict_sorted_iff)
  then show ?thesis by (rule sorted_sort_id)
qed

lemma getAt_fromList_map:
  assumes "\<forall>i\<in>set is. i < length xs"
  shows "map (getAt (fromList xs)) (map int is) = map (\<lambda>i. Some (xs ! i)) is"
  using assms by (simp add: getAt_def aat_fromList)

lemma length_filter_map_rev:
  "length (filter P (map f (rev xs))) = length (filter (\<lambda>x. P (f x)) xs)"
  by (simp add: filter_map rev_filter [symmetric] o_def)

lemma moveAllLeft_shift_phase:
  fixes xs :: "'a list" and "is" :: "nat list"
  assumes srt: "sorted_wrt (<) is" and rng: "\<forall>i\<in>set is. i < length xs"
  defines "R \<equiv> rev (map int is) @ [0]"
  defines "a1 \<equiv> forEach (moveAllLeftStep R) R (fromList xs)"
  shows "alen a1 = length xs"
    and "\<forall>j<length xs. j \<notin> set is \<longrightarrow>
           aat a1 (int j + int (length (filter (\<lambda>t. j < t) is))) = Some (xs ! j)"
proof -
  have both: "alen a1 = length xs \<and> (\<forall>j<length xs. j \<notin> set is \<longrightarrow>
           aat a1 (int j + int (length (filter (\<lambda>t. j < t) is))) = Some (xs ! j))"
  proof (cases "is" rule: rev_cases)
    case Nil
    then have "a1 = fromList xs"
      by (simp add: a1_def R_def forEach_def moveAllLeftStep_def)
    then show ?thesis using Nil by (simp add: aat_fromList alen_fromList)
  next
    case (snoc bl l)
    define ms where "ms = map int (rev bl)"
    have R: "R = [int l] @ ms @ [0]" by (simp add: R_def snoc ms_def rev_map)
    have a1: "a1 = forEachFrom (moveAllLeftStep R) (length [int l]) (ms @ [0]) (fromList xs)"
      unfolding a1_def forEach_def by (subst (2) R) (simp add: moveAllLeftStep_def)
    have bl_lt: "\<forall>b\<in>set bl. b < l" and bl_srt: "sorted_wrt (<) bl"
      using srt snoc by (auto simp: sorted_wrt_append)
    have desc: "sorted_wrt (>) (last [int l] # ms)"
      using bl_lt bl_srt by (simp add: ms_def sorted_wrt_map sorted_wrt_rev)
    have nonneg: "\<forall>m\<in>set ms. 0 \<le> m" by (auto simp: ms_def)
    have l_lt: "l < length xs" using rng snoc by simp
    note L = moveAllLeft_outer [where orig = "aat (fromList xs)" and a = "fromList xs",
        OF R _ desc nonneg, folded a1]
    have i: "\<And>j. 0 \<le> j \<Longrightarrow> j < int l \<Longrightarrow> j \<notin> set ms \<Longrightarrow>
               aat a1 (j + 1 + int (length (filter (\<lambda>m. j < m) ms))) = aat (fromList xs) j"
      using L by simp
    have ii: "\<And>p. p \<ge> int l + 1 \<Longrightarrow> aat a1 p = aat (fromList xs) p"
      using L by simp
    have iii: "alen a1 = length xs"
      using L l_lt by (simp add: alen_fromList)
    have k2: "aat a1 (int j + int (length (filter (\<lambda>t. j < t) is))) = Some (xs ! j)"
      if j: "j < length xs" "j \<notin> set is" for j
    proof (cases "j < l")
      case True
      have notin: "int j \<notin> set ms" using j(2) snoc by (auto simp: ms_def)
      have cnt: "length (filter (\<lambda>m. int j < m) ms) = length (filter (\<lambda>t. j < t) bl)"
        unfolding ms_def using length_filter_map_rev [of "\<lambda>m. int j < m" int bl] by simp
      have "aat a1 (int j + 1 + int (length (filter (\<lambda>m. int j < m) ms))) = aat (fromList xs) (int j)"
        using i [of "int j"] True notin by simp
      then show ?thesis using True j(1) by (simp add: snoc cnt aat_fromList algebra_simps)
    next
      case False
      then have lj: "l < j" using j(2) snoc by auto
      have "filter (\<lambda>t. j < t) is = []"
        using bl_lt lj by (auto simp: snoc filter_empty_conv)
      then show ?thesis using ii [of "int j"] lj j(1) by (simp add: aat_fromList)
    qed
    show ?thesis using iii k2 by blast
  qed
  show "alen a1 = length xs" using both by blast
  show "\<forall>j<length xs. j \<notin> set is \<longrightarrow>
           aat a1 (int j + int (length (filter (\<lambda>t. j < t) is))) = Some (xs ! j)"
    using both by blast
qed

lemma moveAllLeft_sorted:
  fixes xs :: "'a list" and "is" :: "nat list"
  assumes srt: "sorted_wrt (<) is" and rng: "\<forall>i\<in>set is. i < length xs"
  shows "toList (moveAllLeft (fromList xs) (map int is))
           = map Some (map ((!) xs) is @ map ((!) xs) (filter (\<lambda>j. j \<notin> set is) [0..<length xs]))"
proof -
  define R where "R = rev (map int is) @ [0]"
  define a1 where "a1 = forEach (moveAllLeftStep R) R (fromList xs)"
  define a2 where "a2 = forEachFrom fillLeftStep 0 (map (\<lambda>i. Some (xs ! i)) is) a1"
  define ns where "ns = filter (\<lambda>j. j \<notin> set is) [0..<length xs]"
  have d: "distinct is" using srt by (simp add: strict_sorted_iff)
  have len: "length is + length ns = length xs"
    unfolding ns_def using d rng by (rule length_unselected)
  have g: "map (getAt (fromList xs) \<circ> int) is = map (\<lambda>i. Some (xs ! i)) is"
    using rng by (simp add: getAt_def aat_fromList)
  have res: "moveAllLeft (fromList xs) (map int is) = a2"
    by (simp add: moveAllLeft_def Let_def sort_map_int_id [OF srt] g
        a2_def a1_def R_def forEach_def)
  have a1_len: "alen a1 = length xs"
    and a1_at: "\<forall>j<length xs. j \<notin> set is \<longrightarrow>
           aat a1 (int j + int (length (filter (\<lambda>t. j < t) is))) = Some (xs ! j)"
    unfolding a1_def R_def using moveAllLeft_shift_phase [OF srt rng] by blast+
  have a2_len: "alen a2 = length xs"
    unfolding a2_def using len a1_len by (simp add: alen_fillLeft)
  have a2_at: "aat a2 (int p) =
      (if p < length is then Some (xs ! (is ! p)) else aat a1 (int p))" for p
    unfolding a2_def by (simp add: aat_fillLeft)
  show ?thesis
    unfolding res
  proof (rule nth_equalityI)
    show "length (toList a2) = length (map Some (map ((!) xs) is @ map ((!) xs) (filter (\<lambda>j. j \<notin> set is) [0..<length xs])))"
      using len by (simp add: toList_def a2_len ns_def)
  next
    fix p assume "p < length (toList a2)"
    then have p: "p < length xs" by (simp add: toList_def a2_len)
    have lhs: "toList a2 ! p = aat a2 (int p)"
      using p by (simp add: toList_def a2_len)
    show "toList a2 ! p = map Some (map ((!) xs) is @ map ((!) xs) (filter (\<lambda>j. j \<notin> set is) [0..<length xs])) ! p"
    proof (cases "p < length is")
      case True
      then show ?thesis using p len by (simp add: lhs a2_at nth_append ns_def)
    next
      case False
      define q where "q = p - length is"
      have q: "q < length ns" and pq: "p = length is + q"
        using False p len by (auto simp: q_def)
      define j where "j = ns ! q"
      have j: "j < length xs" "j \<notin> set is"
        "j + length (filter (\<lambda>t. j < t) is) = length is + q"
        using unselected_position [OF srt rng q [unfolded ns_def]]
        by (simp_all add: j_def ns_def)
      have "aat a1 (int p) = aat a1 (int j + int (length (filter (\<lambda>t. j < t) is)))"
        using j(3) pq by (metis of_nat_add)
      also have "\<dots> = Some (xs ! j)" using a1_at j by blast
      finally have "aat a2 (int p) = Some (xs ! j)" using False by (simp add: a2_at)
      moreover have "map Some (map ((!) xs) is @ map ((!) xs) ns) ! p = Some (xs ! j)"
        using False p len q by (simp add: nth_append j_def q_def)
      ultimately show ?thesis by (simp add: lhs ns_def)
    qed
  qed
qed

lemma moveAllRight_outer:
  fixes orig :: "int \<Rightarrow> 'a option"
  assumes "R = pre @ ms @ [N]" "pre \<noteq> []"
    and "sorted_wrt (<) (last pre # ms)" "\<forall>m\<in>set ms. m \<le> N"
    and "\<forall>p > last pre. aat a p = orig p"
  shows "(\<forall>j. last pre < j \<and> j < N \<and> j \<notin> set ms \<longrightarrow>
            aat (forEachFrom (moveAllRightStep R) (length pre) (ms @ [N]) a)
              (j - int (length pre) - int (length (filter (\<lambda>m. m < j) ms))) = orig j)
       \<and> (\<forall>p. p \<le> last pre - int (length pre) \<longrightarrow>
            aat (forEachFrom (moveAllRightStep R) (length pre) (ms @ [N]) a) p = aat a p)
       \<and> (N \<le> int (alen a) \<longrightarrow>
            alen (forEachFrom (moveAllRightStep R) (length pre) (ms @ [N]) a) = alen a)"
  using assms
proof (induction ms arbitrary: pre a)
  case Nil
  have pos: "1 \<le> length pre" using Nil.prems(2) by (cases pre) auto
  have nth: "R ! (length pre - 1) = last pre"
    using Nil.prems(1,2) by (simp add: nth_append last_conv_nth)
  have step: "forEachFrom (moveAllRightStep R) (length pre) ([] @ [N]) a
                = shiftLeftLoop a (last pre + 1) N (length pre)"
    using pos nth Nil.prems(2) by (simp add: moveAllRightStep_def)
  show ?case
    unfolding step using Nil.prems(5) pos
    by (auto simp: aat_shiftLeftLoop alen_shiftLeftLoop)
next
  case (Cons m ms)
  have pos: "1 \<le> length pre" using Cons.prems(2) by (cases pre) auto
  have nth: "R ! (length pre - 1) = last pre"
    using Cons.prems(1,2) by (simp add: nth_append last_conv_nth)
  define a1 where "a1 = shiftLeftLoop a (last pre + 1) m (length pre)"
  have step: "forEachFrom (moveAllRightStep R) (length pre) ((m # ms) @ [N]) a
                = forEachFrom (moveAllRightStep R) (length (pre @ [m])) (ms @ [N]) a1"
    using pos nth Cons.prems(2) by (simp add: moveAllRightStep_def a1_def)
  have m_gt: "last pre < m" and m_le: "m \<le> N" using Cons.prems(3,4) by auto
  have a1_at: "\<And>p. aat a1 p =
      (if last pre + 1 - int (length pre) \<le> p \<and> p < m - int (length pre)
       then aat a (p + int (length pre)) else aat a p)"
    unfolding a1_def using pos by (simp add: aat_shiftLeftLoop)
  have a1_len: "N \<le> int (alen a) \<Longrightarrow> alen a1 = alen a"
    unfolding a1_def using m_le by (simp add: alen_shiftLeftLoop)
  have IH: "(\<forall>j. m < j \<and> j < N \<and> j \<notin> set ms \<longrightarrow>
            aat (forEachFrom (moveAllRightStep R) (length (pre @ [m])) (ms @ [N]) a1)
              (j - int (length (pre @ [m])) - int (length (filter (\<lambda>m. m < j) ms))) = orig j)
       \<and> (\<forall>p. p \<le> m - int (length (pre @ [m])) \<longrightarrow>
            aat (forEachFrom (moveAllRightStep R) (length (pre @ [m])) (ms @ [N]) a1) p = aat a1 p)
       \<and> (N \<le> int (alen a1) \<longrightarrow>
            alen (forEachFrom (moveAllRightStep R) (length (pre @ [m])) (ms @ [N]) a1) = alen a1)"
    using Cons.IH [of "pre @ [m]" a1] Cons.prems a1_at by auto
  let ?r = "forEachFrom (moveAllRightStep R) (length (pre @ [m])) (ms @ [N]) a1"
  have c1: "aat ?r (j - int (length pre) - int (length (filter (\<lambda>k. k < j) (m # ms)))) = orig j"
    if j: "last pre < j" "j < N" "j \<notin> set (m # ms)" for j
  proof (cases "m < j")
    case True
    then show ?thesis using IH j by (auto simp: algebra_simps)
  next
    case False
    then have jm: "j < m" using j by auto
    have "\<forall>k\<in>set ms. m < k" using Cons.prems(3) by auto
    then have f: "filter (\<lambda>k. k < j) (m # ms) = []"
      using jm by (auto simp: filter_empty_conv)
    have "aat ?r (j - int (length pre)) = aat a1 (j - int (length pre))"
      using IH jm by auto
    also have "\<dots> = aat a j" using jm j by (simp add: a1_at)
    also have "\<dots> = orig j" using Cons.prems(5) j by auto
    finally show ?thesis unfolding f by simp
  qed
  have c2: "aat ?r p = aat a p" if "p \<le> last pre - int (length pre)" for p
  proof -
    have "aat ?r p = aat a1 p" using IH that m_gt by auto
    then show ?thesis using that by (simp add: a1_at)
  qed
  have c3: "alen ?r = alen a" if "N \<le> int (alen a)"
    using IH a1_len that by auto
  show ?case unfolding step using c1 c2 c3 by blast
qed

lemma fillRightStep_apply:
  "fillRightStep e i a = setAt a (int (alen a) - int i - 1) e"
  by (simp add: fillRightStep_def)

lemma fillRight:
  "int i + int (length L) \<le> int (alen a) \<Longrightarrow>
   alen (forEachFrom fillRightStep i L a) = alen a \<and>
   (\<forall>p. aat (forEachFrom fillRightStep i L a) p =
     (if int (alen a) - int i - int (length L) \<le> p \<and> p < int (alen a) - int i
      then L ! nat (int (alen a) - int i - 1 - p) else aat a p))"
proof (induction L arbitrary: i a)
  case Nil
  then show ?case by auto
next
  case (Cons x L)
  define a1 where "a1 = setAt a (int (alen a) - int i - 1) x"
  have step: "forEachFrom fillRightStep i (x # L) a = forEachFrom fillRightStep (Suc i) L a1"
    by (simp add: fillRightStep_apply a1_def)
  have len1: "alen a1 = alen a" unfolding a1_def by (simp add: alen_setAt)
  have IH: "alen (forEachFrom fillRightStep (Suc i) L a1) = alen a \<and>
   (\<forall>p. aat (forEachFrom fillRightStep (Suc i) L a1) p =
     (if int (alen a) - int (Suc i) - int (length L) \<le> p \<and> p < int (alen a) - int (Suc i)
      then L ! nat (int (alen a) - int (Suc i) - 1 - p) else aat a1 p))"
    using Cons.IH [of "Suc i" a1] Cons.prems len1 by simp
  have n: "p < int (alen a) - int i - 1 \<Longrightarrow>
        nat (int (alen a) - int i - 1 - p) = Suc (nat (int (alen a) - int (Suc i) - 1 - p))" for p
    by simp
  show ?case
    unfolding step using IH n by (auto simp: a1_def aat_setAt)
qed

lemma moveAllRight_shift_phase:
  fixes xs :: "'a list" and "is" :: "nat list"
  assumes srt: "sorted_wrt (<) is" and rng: "\<forall>i\<in>set is. i < length xs"
  defines "R \<equiv> map int is @ [int (length xs)]"
  defines "a1 \<equiv> forEach (moveAllRightStep R) R (fromList xs)"
  shows "alen a1 = length xs"
    and "\<forall>j<length xs. j \<notin> set is \<longrightarrow>
           aat a1 (int j - int (length (filter (\<lambda>t. t < j) is))) = Some (xs ! j)"
proof -
  have both: "alen a1 = length xs \<and> (\<forall>j<length xs. j \<notin> set is \<longrightarrow>
           aat a1 (int j - int (length (filter (\<lambda>t. t < j) is))) = Some (xs ! j))"
  proof (cases "is")
    case Nil
    then have "a1 = fromList xs"
      by (simp add: a1_def R_def forEach_def moveAllRightStep_def)
    then show ?thesis using Nil by (simp add: aat_fromList alen_fromList)
  next
    case (Cons f rest)
    define ms where "ms = map int rest"
    have R: "R = [int f] @ ms @ [int (length xs)]" by (simp add: R_def Cons ms_def)
    have a1: "a1 = forEachFrom (moveAllRightStep R) (length [int f]) (ms @ [int (length xs)]) (fromList xs)"
      unfolding a1_def forEach_def by (subst (2) R) (simp add: moveAllRightStep_def)
    have rest_gt: "\<forall>b\<in>set rest. f < b" and rest_srt: "sorted_wrt (<) rest"
      using srt Cons by auto
    have asc: "sorted_wrt (<) (last [int f] # ms)"
      using rest_gt rest_srt by (simp add: ms_def sorted_wrt_map)
    have bound: "\<forall>m\<in>set ms. m \<le> int (length xs)" using rng Cons by (auto simp: ms_def)
    note L = moveAllRight_outer [where orig = "aat (fromList xs)" and a = "fromList xs",
        OF R _ asc bound, folded a1]
    have i: "\<And>j. int f < j \<Longrightarrow> j < int (length xs) \<Longrightarrow> j \<notin> set ms \<Longrightarrow>
               aat a1 (j - 1 - int (length (filter (\<lambda>m. m < j) ms))) = aat (fromList xs) j"
      using L by simp
    have ii: "\<And>p. p \<le> int f - 1 \<Longrightarrow> aat a1 p = aat (fromList xs) p"
      using L by simp
    have iii: "alen a1 = length xs"
      using L by (simp add: alen_fromList)
    have k2: "aat a1 (int j - int (length (filter (\<lambda>t. t < j) is))) = Some (xs ! j)"
      if j: "j < length xs" "j \<notin> set is" for j
    proof (cases "f < j")
      case True
      have notin: "int j \<notin> set ms" using j(2) Cons by (auto simp: ms_def)
      have cnt: "length (filter (\<lambda>m. m < int j) ms) = length (filter (\<lambda>t. t < j) rest)"
        unfolding ms_def by (simp add: filter_map o_def)
      have "aat a1 (int j - 1 - int (length (filter (\<lambda>m. m < int j) ms))) = aat (fromList xs) (int j)"
        using i [of "int j"] True notin j(1) by simp
      then show ?thesis using True j(1) by (simp add: Cons cnt aat_fromList algebra_simps)
    next
      case False
      then have lj: "j < f" using j(2) Cons by auto
      have "filter (\<lambda>t. t < j) is = []"
        using rest_gt lj by (auto simp: Cons filter_empty_conv)
      then show ?thesis using ii [of "int j"] lj j(1) by (simp add: aat_fromList)
    qed
    show ?thesis using iii k2 by blast
  qed
  show "alen a1 = length xs" using both by blast
  show "\<forall>j<length xs. j \<notin> set is \<longrightarrow>
           aat a1 (int j - int (length (filter (\<lambda>t. t < j) is))) = Some (xs ! j)"
    using both by blast
qed

lemma moveAllRight_sorted:
  fixes xs :: "'a list" and "is" :: "nat list"
  assumes srt: "sorted_wrt (<) is" and rng: "\<forall>i\<in>set is. i < length xs"
  shows "toList (moveAllRight (fromList xs) (map int is))
           = map Some (map ((!) xs) (filter (\<lambda>j. j \<notin> set is) [0..<length xs]) @ map ((!) xs) is)"
proof -
  define R where "R = map int is @ [int (length xs)]"
  define a1 where "a1 = forEach (moveAllRightStep R) R (fromList xs)"
  define L where "L = map (\<lambda>i. Some (xs ! i)) (rev is)"
  define a2 where "a2 = forEachFrom fillRightStep 0 L a1"
  define ns where "ns = filter (\<lambda>j. j \<notin> set is) [0..<length xs]"
  have d: "distinct is" using srt by (simp add: strict_sorted_iff)
  have len: "length is + length ns = length xs"
    unfolding ns_def using d rng by (rule length_unselected)
  have g: "map (getAt (fromList xs)) (rev (map int is)) = L"
    using rng by (simp add: getAt_def aat_fromList L_def rev_map)
  have res: "moveAllRight (fromList xs) (map int is) = a2"
    unfolding moveAllRight_def Let_def sort_map_int_id [OF srt] g rev_rev_ident alen_fromList
      a2_def a1_def R_def forEach_def ..
  have a1_len: "alen a1 = length xs"
    and a1_at: "\<forall>j<length xs. j \<notin> set is \<longrightarrow>
           aat a1 (int j - int (length (filter (\<lambda>t. t < j) is))) = Some (xs ! j)"
    unfolding a1_def R_def using moveAllRight_shift_phase [OF srt rng] by blast+
  have fr: "alen a2 = alen a1 \<and>
   (\<forall>p. aat a2 p =
     (if int (alen a1) - int 0 - int (length L) \<le> p \<and> p < int (alen a1) - int 0
      then L ! nat (int (alen a1) - int 0 - 1 - p) else aat a1 p))"
    unfolding a2_def using len a1_len by (intro fillRight) (simp add: L_def)
  have a2_len: "alen a2 = length xs" using fr a1_len by simp
  have a2_at: "aat a2 (int p) =
      (if length ns \<le> p \<and> p < length xs then L ! (length xs - 1 - p) else aat a1 (int p))" for p
  proof -
    have "nat (int (length xs) - 1 - int p) = length xs - 1 - p" by simp
    moreover have "(int (length xs) - int (length is) \<le> int p) = (length ns \<le> p)"
      using len by auto
    ultimately show ?thesis using fr a1_len by (simp add: L_def)
  qed
  show ?thesis
    unfolding res
  proof (rule nth_equalityI)
    show "length (toList a2) = length (map Some (map ((!) xs) (filter (\<lambda>j. j \<notin> set is) [0..<length xs]) @ map ((!) xs) is))"
      using len by (simp add: toList_def a2_len ns_def)
  next
    fix p assume "p < length (toList a2)"
    then have p: "p < length xs" by (simp add: toList_def a2_len)
    have lhs: "toList a2 ! p = aat a2 (int p)"
      using p by (simp add: toList_def a2_len)
    show "toList a2 ! p = map Some (map ((!) xs) (filter (\<lambda>j. j \<notin> set is) [0..<length xs]) @ map ((!) xs) is) ! p"
    proof (cases "p < length ns")
      case True
      define j where "j = ns ! p"
      have j: "j < length xs" "j \<notin> set is"
        "length (filter (\<lambda>t. t < j) is) + p = j"
        using unselected_position [OF srt rng True [unfolded ns_def]]
        by (simp_all add: j_def ns_def)
      have pj: "int p = int j - int (length (filter (\<lambda>t. t < j) is))"
        using j(3) by linarith
      have "aat a1 (int j - int (length (filter (\<lambda>t. t < j) is))) = Some (xs ! j)"
        using a1_at j(1,2) by blast
      then have "aat a1 (int p) = Some (xs ! j)" unfolding pj .
      then have "aat a2 (int p) = Some (xs ! j)" using True by (simp add: a2_at)
      moreover have "map Some (map ((!) xs) ns @ map ((!) xs) is) ! p = Some (xs ! j)"
        using True p len by (simp add: nth_append j_def)
      ultimately show ?thesis by (simp add: lhs ns_def)
    next
      case False
      have idx: "length xs - 1 - p < length is" using False p len by linarith
      have "L ! (length xs - 1 - p) = Some (xs ! (rev is ! (length xs - 1 - p)))"
        using idx by (simp add: L_def)
      also have "rev is ! (length xs - 1 - p) = is ! (p - length ns)"
      proof -
        have "length is - Suc (length xs - 1 - p) = p - length ns"
          using False p len by linarith
        then show ?thesis using idx by (simp add: rev_nth)
      qed
      finally have "aat a2 (int p) = Some (xs ! (is ! (p - length ns)))"
        using False p by (simp add: a2_at)
      moreover have "map Some (map ((!) xs) ns @ map ((!) xs) is) ! p = Some (xs ! (is ! (p - length ns)))"
        using False p len by (simp add: nth_append)
      ultimately show ?thesis by (simp add: lhs ns_def)
    qed
  qed
qed

lemma swap_commute: "swap a x y = swap a y x"
  by (cases "x = y") (auto simp: swap_def Let_def setAt_def getAt_def fun_upd_twist)

lemma swap_swap:
  assumes "0 \<le> x" "x < int (alen a)" "0 \<le> y" "y < int (alen a)"
  shows "swap (swap a x y) x y = a"
proof -
  have "aat (swap (swap a x y) x y) = aat a"
    by (rule ext) (simp add: aat_swap)
  moreover have "alen (swap (swap a x y) x y) = alen a"
    using assms by (simp add: alen_swap)
  moreover have "jsarray.more (swap (swap a x y) x y) = jsarray.more a"
    by (simp add: swap_def Let_def setAt_def)
  ultimately show ?thesis by (simp add: jsarray.equality)
qed

lemma toList_swap:
  assumes "0 \<le> x" "x < int (alen a)" "0 \<le> y" "y < int (alen a)"
  shows "toList (swap a x y)
           = (toList a)[nat x := toList a ! nat y, nat y := toList a ! nat x]"
proof (rule nth_equalityI)
  show "length (toList (swap a x y))
          = length ((toList a)[nat x := toList a ! nat y, nat y := toList a ! nat x])"
    using assms by (simp add: toList_def alen_swap)
next
  fix p assume "p < length (toList (swap a x y))"
  then have p: "p < alen a" using assms by (simp add: toList_def alen_swap)
  have "(int p = x) = (p = nat x)" "(int p = y) = (p = nat y)" using assms by auto
  then show "toList (swap a x y) ! p
          = (toList a)[nat x := toList a ! nat y, nat y := toList a ! nat x] ! p"
    using assms p by (auto simp: toList_def alen_swap aat_swap nth_list_update)
qed

lemma mset_toList_swap:
  assumes "0 \<le> x" "x < int (alen a)" "0 \<le> y" "y < int (alen a)"
  shows "mset (toList (swap a x y)) = mset (toList a)"
proof -
  have "nat x < length (toList a)" "nat y < length (toList a)"
    using assms by (simp_all add: toList_def)
  then show ?thesis
    unfolding toList_swap [OF assms] by (simp add: mset_swap)
qed

lemma moveOneLeftStep_apply:
  "moveOneLeftStep index i (a, s) =
     (if s \<and> index = int i then (a, True) else (swap a (index - 1) index, False))"
  by (simp add: moveOneLeftStep_def Let_def)

lemma moveOneRightStep_apply:
  "moveOneRightStep index i (a, s) =
     (if s \<and> index = int (alen a) - int i - 1 then (a, True)
      else (swap a (index + 1) index, False))"
  by (simp add: moveOneRightStep_def Let_def)

lemma moveOneLeft_unsorted_phase:
  "forEachFrom moveOneLeftStep i ms (a, False)
     = (foldl (\<lambda>a m. swap a (m - 1) m) a ms, False)"
proof (induction ms arbitrary: i a)
  case Nil
  show ?case by simp
next
  case (Cons m ms)
  have "forEachFrom moveOneLeftStep i (m # ms) (a, False)
          = forEachFrom moveOneLeftStep (Suc i) ms (swap a (m - 1) m, False)"
    by (simp add: moveOneLeftStep_apply)
  then show ?case unfolding Cons.IH by simp
qed

lemma moveOneLeft_sorted_phase:
  "forEachFrom moveOneLeftStep i (m # ms) (a, True)
     = (if m = int i then forEachFrom moveOneLeftStep (Suc i) ms (a, True)
        else (foldl (\<lambda>a m. swap a (m - 1) m) a (m # ms), False))"
proof -
  have "forEachFrom moveOneLeftStep i (m # ms) (a, True)
          = forEachFrom moveOneLeftStep (Suc i) ms
              (if m = int i then (a, True) else (swap a (m - 1) m, False))"
    by (simp add: moveOneLeftStep_apply)
  then show ?thesis unfolding moveOneLeft_unsorted_phase [symmetric]
    by (simp add: moveOneLeft_unsorted_phase)
qed

lemma swapsLeft_effect:
  assumes "sorted_wrt (<) ms" "\<forall>m\<in>set ms. b < m"
  shows "(\<forall>p<b. aat (foldl (\<lambda>a m. swap a (m - 1) m) a ms) p = aat a p)
       \<and> (\<forall>m\<in>set ms. aat (foldl (\<lambda>a m. swap a (m - 1) m) a ms) (m - 1) = aat a m)"
  using assms
proof (induction ms arbitrary: a b)
  case Nil
  show ?case by simp
next
  case (Cons m ms)
  let ?a1 = "swap a (m - 1) m"
  have IH: "(\<forall>p<m. aat (foldl (\<lambda>a m. swap a (m - 1) m) ?a1 ms) p = aat ?a1 p)
       \<and> (\<forall>k\<in>set ms. aat (foldl (\<lambda>a m. swap a (m - 1) m) ?a1 ms) (k - 1) = aat ?a1 k)"
    using Cons.IH [of m ?a1] Cons.prems by auto
  have gt: "\<forall>k\<in>set ms. m < k" and bm: "b < m" using Cons.prems by auto
  show ?case
  proof (intro conjI allI ballI impI)
    fix p assume "p < b"
    then show "aat (foldl (\<lambda>a m. swap a (m - 1) m) a (m # ms)) p = aat a p"
      using IH bm by (simp add: aat_swap)
  next
    fix k assume k: "k \<in> set (m # ms)"
    show "aat (foldl (\<lambda>a m. swap a (m - 1) m) a (m # ms)) (k - 1) = aat a k"
    proof (cases "k = m")
      case True
      then show ?thesis using IH by (simp add: aat_swap)
    next
      case False
      then have "k \<in> set ms" "m < k" using k gt by auto
      then show ?thesis using IH by (simp add: aat_swap)
    qed
  qed
qed

lemma swapsLeft_perm:
  assumes "\<forall>m\<in>set ms. 1 \<le> m \<and> m < int (alen a)"
  shows "alen (foldl (\<lambda>a m. swap a (m - 1) m) a ms) = alen a
       \<and> mset (toList (foldl (\<lambda>a m. swap a (m - 1) m) a ms)) = mset (toList a)"
  using assms
proof (induction ms arbitrary: a)
  case Nil
  show ?case by simp
next
  case (Cons m ms)
  have m: "1 \<le> m" "m < int (alen a)" using Cons.prems by auto
  have len: "alen (swap a (m - 1) m) = alen a" using m by (simp add: alen_swap)
  have ms: "mset (toList (swap a (m - 1) m)) = mset (toList a)"
    using m by (intro mset_toList_swap) auto
  show ?case
    using Cons.IH [of "swap a (m - 1) m"] Cons.prems len ms by simp
qed

lemma swapsRight_perm:
  assumes "\<forall>m\<in>set ms. 0 \<le> m \<and> m + 1 < int (alen a)"
  shows "alen (foldl (\<lambda>a m. swap a (m + 1) m) a ms) = alen a
       \<and> mset (toList (foldl (\<lambda>a m. swap a (m + 1) m) a ms)) = mset (toList a)"
  using assms
proof (induction ms arbitrary: a)
  case Nil
  show ?case by simp
next
  case (Cons m ms)
  have m: "0 \<le> m" "m + 1 < int (alen a)" using Cons.prems by auto
  have len: "alen (swap a (m + 1) m) = alen a" using m by (simp add: alen_swap)
  have ms: "mset (toList (swap a (m + 1) m)) = mset (toList a)"
    using m by (intro mset_toList_swap) auto
  show ?case
    using Cons.IH [of "swap a (m + 1) m"] Cons.prems len ms by simp
qed

lemma moveOneLeft_blocked_frame:
  assumes "sorted_wrt (<) ms" "\<forall>m\<in>set ms. int i \<le> m"
  shows "\<forall>p < int i. aat (fst (forEachFrom moveOneLeftStep i ms (a, True))) p = aat a p"
  using assms
proof (induction ms arbitrary: i a)
  case Nil
  show ?case by simp
next
  case (Cons m ms)
  show ?case
  proof (cases "m = int i")
    case True
    have "\<forall>k\<in>set ms. int (Suc i) \<le> k" using Cons.prems True by auto
    then have "\<forall>p < int (Suc i). aat (fst (forEachFrom moveOneLeftStep (Suc i) ms (a, True))) p = aat a p"
      using Cons.IH [of "Suc i" a] Cons.prems by simp
    then show ?thesis using True by (simp add: moveOneLeftStep_apply moveOneLeft_unsorted_phase)
  next
    case False
    then have "\<forall>k\<in>set (m # ms). int i < k" using Cons.prems by auto
    from swapsLeft_effect [OF Cons.prems(1) this, of a] False
    show ?thesis by (simp add: moveOneLeftStep_apply moveOneLeft_unsorted_phase)
  qed
qed

lemma sorted_int_nth_ge:
  fixes ms :: "int list"
  assumes "sorted_wrt (<) ms" "t < length ms"
  shows "ms ! 0 + int t \<le> ms ! t"
  using assms(2)
proof (induction t)
  case 0
  show ?case by simp
next
  case (Suc t)
  have "ms ! t < ms ! Suc t"
    using assms(1) Suc.prems by (simp add: sorted_wrt_nth_less)
  with Suc show ?case by simp
qed

lemma moveOneLeft_positions:
  assumes "sorted_wrt (<) ms" "\<forall>m\<in>set ms. int i \<le> m"
  shows "\<forall>t<length ms.
           (if ms ! t = int (i + t)
            then aat (fst (forEachFrom moveOneLeftStep i ms (a, True))) (ms ! t) = aat a (ms ! t)
            else aat (fst (forEachFrom moveOneLeftStep i ms (a, True))) (ms ! t - 1) = aat a (ms ! t))"
  using assms
proof (induction ms arbitrary: i a)
  case Nil
  show ?case by simp
next
  case (Cons m ms)
  show ?case
  proof (cases "m = int i")
    case True
    have ge: "\<forall>k\<in>set ms. int (Suc i) \<le> k" using Cons.prems True by auto
    have srt: "sorted_wrt (<) ms" using Cons.prems by simp
    have res: "forEachFrom moveOneLeftStep i (m # ms) (a, True)
                 = forEachFrom moveOneLeftStep (Suc i) ms (a, True)"
      using True by (simp add: moveOneLeftStep_apply moveOneLeft_unsorted_phase)
    have hd: "aat (fst (forEachFrom moveOneLeftStep (Suc i) ms (a, True))) m = aat a m"
      using moveOneLeft_blocked_frame [OF srt ge, of a] True by simp
    have IH: "\<forall>t<length ms.
           (if ms ! t = int (Suc i + t)
            then aat (fst (forEachFrom moveOneLeftStep (Suc i) ms (a, True))) (ms ! t) = aat a (ms ! t)
            else aat (fst (forEachFrom moveOneLeftStep (Suc i) ms (a, True))) (ms ! t - 1) = aat a (ms ! t))"
      using Cons.IH [OF srt ge] .
    show ?thesis
      unfolding res
    proof (intro allI impI)
      fix t assume t: "t < length (m # ms)"
      show "if (m # ms) ! t = int (i + t)
            then aat (fst (forEachFrom moveOneLeftStep (Suc i) ms (a, True))) ((m # ms) ! t) = aat a ((m # ms) ! t)
            else aat (fst (forEachFrom moveOneLeftStep (Suc i) ms (a, True))) ((m # ms) ! t - 1) = aat a ((m # ms) ! t)"
      proof (cases t)
        case 0
        then show ?thesis using hd True by simp
      next
        case (Suc t')
        then have "t' < length ms" using t by simp
        from IH [rule_format, OF this] show ?thesis
          unfolding Suc by (cases "ms ! t' = int (Suc i + t')") (simp_all add: algebra_simps)
      qed
    qed
  next
    case False
    then have gt: "\<forall>k\<in>set (m # ms). int i < k" using Cons.prems by auto
    have res: "fst (forEachFrom moveOneLeftStep i (m # ms) (a, True))
                 = foldl (\<lambda>a m. swap a (m - 1) m) a (m # ms)"
      using False by (simp add: moveOneLeftStep_apply moveOneLeft_unsorted_phase)
    have eff: "\<forall>k\<in>set (m # ms). aat (foldl (\<lambda>a m. swap a (m - 1) m) a (m # ms)) (k - 1) = aat a k"
      using swapsLeft_effect [OF Cons.prems(1) gt, of a] by blast
    show ?thesis
      unfolding res
    proof (intro allI impI)
      fix t assume t: "t < length (m # ms)"
      have "(m # ms) ! 0 + int t \<le> (m # ms) ! t"
        using Cons.prems(1) t by (rule sorted_int_nth_ge)
      moreover have "int i < m" using gt by simp
      ultimately have ne: "(m # ms) ! t \<noteq> int (i + t)" by simp
      have "(m # ms) ! t \<in> set (m # ms)" using t by (rule nth_mem)
      then have "aat (foldl (\<lambda>a m. swap a (m - 1) m) a (m # ms)) ((m # ms) ! t - 1) = aat a ((m # ms) ! t)"
        using eff by blast
      then show "if (m # ms) ! t = int (i + t)
            then aat (foldl (\<lambda>a m. swap a (m - 1) m) a (m # ms)) ((m # ms) ! t) = aat a ((m # ms) ! t)
            else aat (foldl (\<lambda>a m. swap a (m - 1) m) a (m # ms)) ((m # ms) ! t - 1) = aat a ((m # ms) ! t)"
        using ne by simp
    qed
  qed
qed

lemma moveOneLeft_perm_loop:
  assumes "sorted_wrt (<) ms" "\<forall>m\<in>set ms. int i \<le> m \<and> m < int (alen a)"
  shows "alen (fst (forEachFrom moveOneLeftStep i ms (a, True))) = alen a
       \<and> mset (toList (fst (forEachFrom moveOneLeftStep i ms (a, True)))) = mset (toList a)"
  using assms
proof (induction ms arbitrary: i)
  case Nil
  show ?case by simp
next
  case (Cons m ms)
  show ?case
  proof (cases "m = int i")
    case True
    have "\<forall>k\<in>set ms. int (Suc i) \<le> k \<and> k < int (alen a)" using Cons.prems True by auto
    then show ?thesis
      using Cons.IH [of "Suc i"] Cons.prems True by (simp add: moveOneLeftStep_apply moveOneLeft_unsorted_phase)
  next
    case False
    then have "\<forall>k\<in>set (m # ms). 1 \<le> k \<and> k < int (alen a)" using Cons.prems by auto
    from swapsLeft_perm [OF this] False
    show ?thesis by (simp add: moveOneLeftStep_apply moveOneLeft_unsorted_phase)
  qed
qed

lemma moveOneRight_unsorted_phase:
  "forEachFrom moveOneRightStep i ms (a, False)
     = (foldl (\<lambda>a m. swap a (m + 1) m) a ms, False)"
proof (induction ms arbitrary: i a)
  case Nil
  show ?case by simp
next
  case (Cons m ms)
  have "forEachFrom moveOneRightStep i (m # ms) (a, False)
          = forEachFrom moveOneRightStep (Suc i) ms (swap a (m + 1) m, False)"
    by (simp add: moveOneRightStep_apply)
  then show ?case unfolding Cons.IH by simp
qed

lemma moveOneRight_sorted_phase:
  "forEachFrom moveOneRightStep i (m # ms) (a, True)
     = (if m = int (alen a) - int i - 1 then forEachFrom moveOneRightStep (Suc i) ms (a, True)
        else (foldl (\<lambda>a m. swap a (m + 1) m) a (m # ms), False))"
proof -
  have "forEachFrom moveOneRightStep i (m # ms) (a, True)
          = forEachFrom moveOneRightStep (Suc i) ms
              (if m = int (alen a) - int i - 1 then (a, True) else (swap a (m + 1) m, False))"
    by (simp add: moveOneRightStep_apply)
  then show ?thesis by (simp add: moveOneRight_unsorted_phase)
qed

lemma moveOneRight_perm_loop:
  assumes "sorted_wrt (>) ms" "\<forall>m\<in>set ms. 0 \<le> m \<and> m \<le> int (alen a) - int i - 1"
  shows "alen (fst (forEachFrom moveOneRightStep i ms (a, True))) = alen a
       \<and> mset (toList (fst (forEachFrom moveOneRightStep i ms (a, True)))) = mset (toList a)"
  using assms
proof (induction ms arbitrary: i)
  case Nil
  show ?case by simp
next
  case (Cons m ms)
  show ?case
  proof (cases "m = int (alen a) - int i - 1")
    case True
    have "\<forall>k\<in>set ms. 0 \<le> k \<and> k \<le> int (alen a) - int (Suc i) - 1" using Cons.prems True by auto
    then show ?thesis
      using Cons.IH [of "Suc i"] Cons.prems True by (simp add: moveOneRightStep_apply moveOneRight_unsorted_phase)
  next
    case False
    then have "\<forall>k\<in>set (m # ms). 0 \<le> k \<and> k + 1 < int (alen a)" using Cons.prems by auto
    from swapsRight_perm [OF this] False
    show ?thesis by (simp add: moveOneRightStep_apply moveOneRight_unsorted_phase)
  qed
qed

lemma toList_fromList: "toList (fromList xs) = map Some xs"
  by (rule nth_equalityI) (simp_all add: toList_def fromList_def)

lemma sort_map_int:
  fixes "is" :: "nat list"
  shows "sort (map int is) = map int (sort is)"
proof -
  have "mset (sort (map int is)) = mset (map int (sort is))" by simp
  moreover have "sorted (sort (map int is))" by simp
  moreover have "sorted (map int (sort is))"
    by (simp add: sorted_map) 
  ultimately show ?thesis
    by (metis properties_for_sort)
qed

lemma strict_sort:
  fixes "is" :: "nat list"
  assumes "distinct is"
  shows "sorted_wrt (<) (sort is)"
  using assms by (simp add: strict_sorted_iff)

lemma mset_selected_unselected:
  fixes "is" :: "nat list"
  assumes "distinct is" "\<forall>i\<in>set is. i < length xs"
  shows "mset (map ((!) xs) is) + mset (map ((!) xs) (filter (\<lambda>j. j \<notin> set is) [0..<length xs]))
           = mset xs"
proof -
  let ?ns = "filter (\<lambda>j. j \<notin> set is) [0..<length xs]"
  have 1: "mset is = mset (filter (\<lambda>j. j \<in> set is) [0..<length xs])"
    using assms by (intro iffD1 [OF set_eq_iff_mset_eq_distinct]) auto
  have 2: "mset (filter (\<lambda>j. j \<in> set is) [0..<length xs]) + mset ?ns = mset [0..<length xs]"
    unfolding mset_filter by (rule multiset_partition [symmetric])
  have 3: "mset is + mset ?ns = mset [0..<length xs]"
    using 1 2 by (simp only:)
  have "mset (map ((!) xs) is) + mset (map ((!) xs) ?ns) = image_mset ((!) xs) (mset is + mset ?ns)"
    by (simp only: mset_map image_mset_union)
  also have "\<dots> = image_mset ((!) xs) (mset [0..<length xs])"
    by (simp only: 3)
  also have "\<dots> = mset (map ((!) xs) [0..<length xs])"
    by (simp only: mset_map)
  also have "map ((!) xs) [0..<length xs] = xs"
    by (rule map_nth)
  finally show ?thesis .
qed

lemma sorted_nat_nth_ge:
  fixes "is" :: "nat list"
  assumes "sorted_wrt (<) is"
  shows "t < length is \<Longrightarrow> t \<le> is ! t"
proof (induction t)
  case 0
  show ?case by simp
next
  case (Suc u)
  have "is ! u < is ! Suc u" using assms Suc.prems by (simp add: sorted_wrt_nth_less)
  with Suc show ?case by simp
qed

lemma sorted_nat_nth_gap:
  fixes "is" :: "nat list"
  assumes "sorted_wrt (<) is"
  shows "t < length is \<Longrightarrow> u \<le> t \<Longrightarrow> is ! u + (t - u) \<le> is ! t"
proof (induction t)
  case 0
  then show ?case by simp
next
  case (Suc t)
  show ?case
  proof (cases "u = Suc t")
    case True
    then show ?thesis by simp
  next
    case False
    then have u: "u \<le> t" using Suc.prems by simp
    have "is ! t < is ! Suc t" using assms Suc.prems by (simp add: sorted_wrt_nth_less)
    moreover have "is ! u + (t - u) \<le> is ! t" using Suc.IH Suc.prems u by simp
    ultimately show ?thesis using u by (simp add: Suc_diff_le)
  qed
qed

lemma blocked_iff_prefix:
  fixes "is" :: "nat list"
  assumes "sorted_wrt (<) is" "t < length is"
  shows "(is ! t = t) = ({..is ! t} \<subseteq> set is)"
proof
  assume eq: "is ! t = t"
  show "{..is ! t} \<subseteq> set is"
  proof
    fix u assume "u \<in> {..is ! t}"
    then have u: "u \<le> t" using eq by simp
    then have ul: "u < length is" using assms(2) by simp
    have "u \<le> is ! u" using assms(1) ul by (rule sorted_nat_nth_ge)
    moreover have "is ! u + (t - u) \<le> is ! t" using assms u by (intro sorted_nat_nth_gap)
    ultimately have "is ! u = u" using eq u by simp
    then show "u \<in> set is" using ul by (metis nth_mem)
  qed
next
  assume sub: "{..is ! t} \<subseteq> set is"
  have d: "distinct is" using assms(1) by (simp add: strict_sorted_iff)
  have cnt: "length (filter (\<lambda>x. x < is ! t) is) = t"
    using assms by (rule sorted_idx_count)
  have "{..<is ! t} \<subseteq> {x. x < is ! t} \<inter> set is" using sub by auto
  then have "card {..<is ! t} \<le> card ({x. x < is ! t} \<inter> set is)"
    by (intro card_mono) auto
  also have "\<dots> = t" using cnt d by (simp add: distinct_length_filter)
  finally have "is ! t \<le> t" by simp
  moreover have "t \<le> is ! t" using assms by (rule sorted_nat_nth_ge)
  ultimately show "is ! t = t" by simp
qed

lemma moveOneLeft_sorted:
  fixes xs :: "'a list" and "is" :: "nat list"
  assumes srt: "sorted_wrt (<) is" and rng: "\<forall>i\<in>set is. i < length xs"
  shows "alen (moveOneLeft (fromList xs) (map int is)) = length xs"
    and "\<forall>t<length is.
           (if is ! t = t
            then aat (moveOneLeft (fromList xs) (map int is)) (int (is ! t)) = Some (xs ! (is ! t))
            else aat (moveOneLeft (fromList xs) (map int is)) (int (is ! t) - 1) = Some (xs ! (is ! t)))"
proof -
  have s: "sorted_wrt (<) (map int is)" using srt by (simp add: sorted_wrt_map)
  have res: "moveOneLeft (fromList xs) (map int is)
               = fst (forEachFrom moveOneLeftStep 0 (map int is) (fromList xs, True))"
    by (simp add: moveOneLeft_def forEach_def sort_map_int_id [OF srt])
  have b: "\<forall>m\<in>set (map int is). int 0 \<le> m \<and> m < int (alen (fromList xs))"
    using rng by (auto simp: alen_fromList)
  show "alen (moveOneLeft (fromList xs) (map int is)) = length xs"
    unfolding res using moveOneLeft_perm_loop [OF s b] by (simp add: alen_fromList)
  have b': "\<forall>m\<in>set (map int is). int 0 \<le> m" by auto
  have pos: "\<forall>t<length (map int is).
           (if map int is ! t = int (0 + t)
            then aat (fst (forEachFrom moveOneLeftStep 0 (map int is) (fromList xs, True))) (map int is ! t)
                   = aat (fromList xs) (map int is ! t)
            else aat (fst (forEachFrom moveOneLeftStep 0 (map int is) (fromList xs, True))) (map int is ! t - 1)
                   = aat (fromList xs) (map int is ! t))"
    using moveOneLeft_positions [OF s b'] .
  show "\<forall>t<length is.
           (if is ! t = t
            then aat (moveOneLeft (fromList xs) (map int is)) (int (is ! t)) = Some (xs ! (is ! t))
            else aat (moveOneLeft (fromList xs) (map int is)) (int (is ! t) - 1) = Some (xs ! (is ! t)))"
    unfolding res
  proof (intro allI impI)
    fix t assume t: "t < length is"
    then have "is ! t < length xs" using rng by simp
    then show "if is ! t = t
            then aat (fst (forEachFrom moveOneLeftStep 0 (map int is) (fromList xs, True))) (int (is ! t)) = Some (xs ! (is ! t))
            else aat (fst (forEachFrom moveOneLeftStep 0 (map int is) (fromList xs, True))) (int (is ! t) - 1) = Some (xs ! (is ! t))"
      using pos [rule_format, of t] t by (simp add: aat_fromList split: if_splits)
  qed
qed

lemma swaps_undo:
  assumes "\<forall>m\<in>set ms. 1 \<le> m \<and> m < int (alen a)"
  shows "foldl (\<lambda>a m. swap a (m + 1) m) (foldl (\<lambda>a m. swap a (m - 1) m) a ms)
           (rev (map (\<lambda>m. m - 1) ms)) = a"
  using assms
proof (induction ms rule: rev_induct)
  case Nil
  show ?case by simp
next
  case (snoc m ms)
  let ?A = "foldl (\<lambda>a m. swap a (m - 1) m) a ms"
  have len: "alen ?A = alen a" using swapsLeft_perm [of ms a] snoc.prems by simp
  have m: "1 \<le> m" "m < int (alen ?A)" using snoc.prems len by auto
  have "swap (swap ?A (m - 1) m) (m - 1 + 1) (m - 1) = swap (swap ?A (m - 1) m) (m - 1) m"
    by (simp add: swap_commute)
  also have "\<dots> = ?A" using m by (intro swap_swap) auto
  finally show ?case using snoc.IH snoc.prems by simp
qed

lemma moveOneLeft_then_right:
  fixes xs :: "'a list" and "is" :: "nat list"
  assumes srt: "sorted_wrt (<) is" and rng: "\<forall>i\<in>set is. 0 < i \<and> i < length xs"
  shows "moveOneRight (moveOneLeft (fromList xs) (map int is)) (map (\<lambda>i. int i - 1) is)
           = fromList xs"
proof (cases "is")
  case Nil
  then show ?thesis by (simp add: moveOneRight_def moveOneLeft_def forEach_def)
next
  case (Cons f rest)
  define ms where "ms = map int is"
  have s: "sorted_wrt (<) ms" using srt by (simp add: ms_def sorted_wrt_map)
  have inr: "\<forall>m\<in>set ms. 1 \<le> m \<and> m < int (alen (fromList xs))"
    using rng by (auto simp: ms_def alen_fromList)
  have ms: "ms = int f # map int rest" by (simp add: ms_def Cons)
  have f0: "int f \<noteq> int 0" using rng Cons by simp
  define A where "A = foldl (\<lambda>a m. swap a (m - 1) m) (fromList xs) ms"
  have sortms: "sort ms = ms" unfolding ms_def using srt by (rule sort_map_int_id)
  have left: "moveOneLeft (fromList xs) (map int is) = A"
    unfolding moveOneLeft_def forEach_def ms_def [symmetric] sortms A_def
    unfolding ms using f0 by (simp add: moveOneLeftStep_apply moveOneLeft_unsorted_phase)
  have lenA: "alen A = length xs"
    unfolding A_def using swapsLeft_perm [OF inr] by (simp add: alen_fromList)
  have s1: "sorted_wrt (<) (map (\<lambda>m. m - 1) ms)" using s by (simp add: sorted_wrt_map)
  then have "sorted (map (\<lambda>m. m - 1) ms)" by (simp add: strict_sorted_iff)
  then have sortid: "sort (map (\<lambda>m. m - 1) ms) = map (\<lambda>m. m - 1) ms" by (rule sorted_sort_id)
  have shifted: "map (\<lambda>i. int i - 1) is = map (\<lambda>m. m - 1) ms" by (simp add: ms_def)
  obtain d ds where dds: "rev (map (\<lambda>m. m - 1) ms) = d # ds"
    using ms by (cases "rev (map (\<lambda>m. m - 1) ms)") auto
  have "d \<in> set (map (\<lambda>m. m - 1) ms)" using dds by (metis list.set_intros(1) set_rev)
  then have "d + 1 < int (alen A)" using inr lenA by (auto simp: alen_fromList)
  then have dne: "d \<noteq> int (alen A) - int 0 - 1" by simp
  have "moveOneRight A (map (\<lambda>m. m - 1) ms)
          = foldl (\<lambda>a m. swap a (m + 1) m) A (rev (map (\<lambda>m. m - 1) ms))"
    unfolding moveOneRight_def forEach_def sortid dds
    using dne by (simp add: moveOneRightStep_apply moveOneRight_unsorted_phase)
  also have "\<dots> = fromList xs"
    unfolding A_def using inr by (rule swaps_undo)
  finally show ?thesis unfolding left shifted .
qed

text \<open>
  Claim C1. \<open>moveAllLeft\<close> on \<open>[a, b, c, d, e, f, g]\<close> with the selected indices \<open>[2, 5]\<close>
  returns \<open>[c, f, a, b, d, e, g]\<close>. For every element list \<open>xs\<close> and every strictly
  ascending list \<open>is\<close> of indices inside \<open>xs\<close>, the result is the selected elements, in
  their order, in the leading slots, followed by the elements that are not selected, in their
  order.
\<close>

theorem C1_moveAllLeft_selected_first:
  fixes xs :: "'a list" and "is" :: "nat list"
  shows "toList (moveAllLeft (fromList ''abcdefg'') [2, 5]) = map Some ''cfabdeg''
       \<and> (sorted_wrt (<) is \<and> (\<forall>i\<in>set is. i < length xs) \<longrightarrow>
            toList (moveAllLeft (fromList xs) (map int is))
              = map Some (map ((!) xs) is
                          @ map ((!) xs) (filter (\<lambda>j. j \<notin> set is) [0..<length xs])))"
proof (intro conjI impI)
  have "toList (moveAllLeft (fromList ''abcdefg'') (map int [2, 5]))
          = map Some (map ((!) ''abcdefg'') [2, 5]
                      @ map ((!) ''abcdefg'') (filter (\<lambda>j. j \<notin> set [2, 5]) [0..<length ''abcdefg'']))"
    by (rule moveAllLeft_sorted) simp_all
  then show "toList (moveAllLeft (fromList ''abcdefg'') [2, 5]) = map Some ''cfabdeg''"
    by (simp add: upt_rec)
next
  assume "sorted_wrt (<) is \<and> (\<forall>i\<in>set is. i < length xs)"
  then show "toList (moveAllLeft (fromList xs) (map int is))
              = map Some (map ((!) xs) is
                          @ map ((!) xs) (filter (\<lambda>j. j \<notin> set is) [0..<length xs]))"
    by (intro moveAllLeft_sorted) simp_all
qed

theorem C1_moveAllLeft_selected_first_witness:
  "toList (moveAllLeft (fromList ''abcde'') [0, 3, 4]) = map Some ''adebc''"
  using C1_moveAllLeft_selected_first [of "[0, 3, 4]" "''abcde''"]
  by (simp add: upt_rec)

text \<open>
  Claim C9. \<open>moveOneLeft\<close> on \<open>[A, B, C, D, E]\<close> with the indices \<open>[1, 3]\<close> returns
  \<open>[B, A, D, C, E]\<close>. For every element list \<open>xs\<close> and every strictly ascending list \<open>is\<close>
  of indices inside \<open>xs\<close> the result has the length of \<open>xs\<close>, and the element selected by
  \<open>is ! t\<close> stays in its slot when every slot from the front up to it is selected (the
  contiguous selected prefix, blocked by the boundary) and stands one slot nearer to index 0
  otherwise. When no selected index is 0, \<open>moveOneRight\<close> with the indices shifted by one
  restores the list that \<open>moveOneLeft\<close> was given.
\<close>

theorem C9_moveOneLeft_one_slot:
  fixes xs :: "'a list" and "is" :: "nat list"
  shows "toList (moveOneLeft (fromList ''ABCDE'') [1, 3]) = map Some ''BADCE''
       \<and> (sorted_wrt (<) is \<and> (\<forall>i\<in>set is. i < length xs) \<longrightarrow>
            length (toList (moveOneLeft (fromList xs) (map int is))) = length xs
            \<and> (\<forall>t<length is.
                  if {..is ! t} \<subseteq> set is
                  then toList (moveOneLeft (fromList xs) (map int is)) ! (is ! t)
                         = Some (xs ! (is ! t))
                  else 0 < is ! t
                     \<and> toList (moveOneLeft (fromList xs) (map int is)) ! (is ! t - 1)
                         = Some (xs ! (is ! t))))
       \<and> (sorted_wrt (<) is \<and> (\<forall>i\<in>set is. 0 < i \<and> i < length xs) \<longrightarrow>
            moveOneRight (moveOneLeft (fromList xs) (map int is)) (map (\<lambda>i. int i - 1) is)
              = fromList xs)"
proof (intro conjI impI)
  show "toList (moveOneLeft (fromList ''ABCDE'') [1, 3]) = map Some ''BADCE''"
    by (simp add: moveOneLeft_def forEach_def moveOneLeftStep_apply toList_def
        aat_swap aat_fromList alen_swap alen_fromList upt_rec)
next
  assume a: "sorted_wrt (<) is \<and> (\<forall>i\<in>set is. i < length xs)"
  then have srt: "sorted_wrt (<) is" and rng: "\<forall>i\<in>set is. i < length xs" by simp_all
  let ?r = "moveOneLeft (fromList xs) (map int is)"
  have len: "alen ?r = length xs" using moveOneLeft_sorted(1) [OF srt rng] .
  show "length (toList ?r) = length xs" by (simp add: toList_def len)
  show "\<forall>t<length is.
          if {..is ! t} \<subseteq> set is
          then toList ?r ! (is ! t) = Some (xs ! (is ! t))
          else 0 < is ! t \<and> toList ?r ! (is ! t - 1) = Some (xs ! (is ! t))"
  proof (intro allI impI)
    fix t assume t: "t < length is"
    have b: "(is ! t = t) = ({..is ! t} \<subseteq> set is)" using srt t by (rule blocked_iff_prefix)
    have r: "is ! t < length xs" using rng t by simp
    have ge: "t \<le> is ! t" using srt t by (rule sorted_nat_nth_ge)
    have p: "if is ! t = t
            then aat ?r (int (is ! t)) = Some (xs ! (is ! t))
            else aat ?r (int (is ! t) - 1) = Some (xs ! (is ! t))"
      using moveOneLeft_sorted(2) [OF srt rng] t by blast
    show "if {..is ! t} \<subseteq> set is
          then toList ?r ! (is ! t) = Some (xs ! (is ! t))
          else 0 < is ! t \<and> toList ?r ! (is ! t - 1) = Some (xs ! (is ! t))"
    proof (cases "is ! t = t")
      case True
      then show ?thesis using p b r by (simp add: toList_def len)
    next
      case False
      then have pos: "0 < is ! t" using ge by simp
      then have "int (is ! t - 1) = int (is ! t) - 1" by simp
      then show ?thesis using p b r False pos by (simp add: toList_def len)
    qed
  qed
next
  assume "sorted_wrt (<) is \<and> (\<forall>i\<in>set is. 0 < i \<and> i < length xs)"
  then show "moveOneRight (moveOneLeft (fromList xs) (map int is)) (map (\<lambda>i. int i - 1) is)
              = fromList xs"
    by (intro moveOneLeft_then_right) simp_all
qed

theorem C9_moveOneLeft_one_slot_witness:
  "toList (moveOneLeft (fromList ''ABCDE'') (map int [0, 1, 3])) ! 0 = Some CHR ''A''
   \<and> toList (moveOneLeft (fromList ''ABCDE'') (map int [0, 1, 3])) ! 1 = Some CHR ''B''
   \<and> toList (moveOneLeft (fromList ''ABCDE'') (map int [0, 1, 3])) ! 2 = Some CHR ''D''
   \<and> moveOneRight (moveOneLeft (fromList ''ABCDE'') (map int [1, 3])) (map (\<lambda>i. int i - 1) [1, 3])
       = fromList ''ABCDE''"
proof -
  have h: "sorted_wrt (<) [0, 1, 3::nat] \<and> (\<forall>i\<in>set [0, 1, 3::nat]. i < length ''ABCDE'')"
    by simp
  have k: "sorted_wrt (<) [1, 3::nat] \<and> (\<forall>i\<in>set [1, 3::nat]. 0 < i \<and> i < length ''ABCDE'')"
    by simp
  have s0: "{..[0, 1, 3::nat] ! 0} \<subseteq> set [0, 1, 3]" by simp
  have s1: "{..[0, 1, 3::nat] ! 1} \<subseteq> set [0, 1, 3]" by (auto simp: atMost_Suc numeral_eq_Suc)
  have s2: "\<not> {..[0, 1, 3::nat] ! 2} \<subseteq> set [0, 1, 3]" by (auto simp: subset_iff intro: exI [of _ 2])
  note C = C9_moveOneLeft_one_slot [of "[0, 1, 3]" "''ABCDE''", THEN conjunct2, THEN conjunct1, rule_format, OF h, THEN conjunct2, rule_format]
  have "0 < length [0, 1, 3::nat]" "1 < length [0, 1, 3::nat]" "2 < length [0, 1, 3::nat]" by simp_all
  note C0 = C [OF this(1)] and C1 = C [OF this(2)] and C2 = C [OF this(3)]
  note D = C9_moveOneLeft_one_slot [of "[1, 3]" "''ABCDE''", THEN conjunct2, THEN conjunct2, rule_format, OF k]
  show ?thesis
    using C0 C1 C2 D s0 s1 s2 by simp
qed

text \<open>
  Claim C10. For every element list \<open>xs\<close> and every list \<open>is\<close> of distinct indices inside
  \<open>xs\<close>, in any order, each of \<open>moveOneLeft\<close>, \<open>moveOneRight\<close>, \<open>moveAllLeft\<close> and
  \<open>moveAllRight\<close> returns an array of the length of \<open>xs\<close> holding the elements of \<open>xs\<close>,
  each as often as \<open>xs\<close> does: no element is lost or duplicated.
\<close>

theorem C10_restack_is_permutation:
  fixes xs :: "'a list" and "is" :: "nat list"
  assumes "distinct is" and "\<forall>i\<in>set is. i < length xs"
  shows "length (toList (moveOneLeft (fromList xs) (map int is))) = length xs
       \<and> mset (toList (moveOneLeft (fromList xs) (map int is))) = mset (map Some xs)
       \<and> length (toList (moveOneRight (fromList xs) (map int is))) = length xs
       \<and> mset (toList (moveOneRight (fromList xs) (map int is))) = mset (map Some xs)
       \<and> length (toList (moveAllLeft (fromList xs) (map int is))) = length xs
       \<and> mset (toList (moveAllLeft (fromList xs) (map int is))) = mset (map Some xs)
       \<and> length (toList (moveAllRight (fromList xs) (map int is))) = length xs
       \<and> mset (toList (moveAllRight (fromList xs) (map int is))) = mset (map Some xs)"
proof -
  define js where "js = sort is"
  have srt: "sorted_wrt (<) js" unfolding js_def using assms(1) by (rule strict_sort)
  have d: "distinct js" and rng: "\<forall>i\<in>set js. i < length xs"
    using assms by (simp_all add: js_def)
  have s: "sort (map int is) = map int js" by (simp add: js_def sort_map_int)
  have sj: "sort (map int js) = map int js" using srt by (rule sort_map_int_id)
  have eqL: "moveOneLeft (fromList xs) (map int is) = moveOneLeft (fromList xs) (map int js)"
    by (simp add: moveOneLeft_def s sj)
  have eqR: "moveOneRight (fromList xs) (map int is) = moveOneRight (fromList xs) (map int js)"
    by (simp add: moveOneRight_def s sj)
  have eqAL: "moveAllLeft (fromList xs) (map int is) = moveAllLeft (fromList xs) (map int js)"
    by (simp add: moveAllLeft_def s sj)
  have eqAR: "moveAllRight (fromList xs) (map int is) = moveAllRight (fromList xs) (map int js)"
    by (simp add: moveAllRight_def s sj)
  have mj: "sorted_wrt (<) (map int js)" using srt by (simp add: sorted_wrt_map)
  have bL: "\<forall>m\<in>set (map int js). int 0 \<le> m \<and> m < int (alen (fromList xs))"
    using rng by (auto simp: alen_fromList)
  have pL: "alen (moveOneLeft (fromList xs) (map int js)) = length xs
          \<and> mset (toList (moveOneLeft (fromList xs) (map int js))) = mset (map Some xs)"
    using moveOneLeft_perm_loop [OF mj bL]
    by (simp add: moveOneLeft_def forEach_def sj alen_fromList toList_fromList)
  have mr: "sorted_wrt (>) (rev (map int js))" using mj by (simp add: sorted_wrt_rev)
  have bR: "\<forall>m\<in>set (rev (map int js)). 0 \<le> m \<and> m \<le> int (alen (fromList xs)) - int 0 - 1"
    using rng by (auto simp: alen_fromList)
  have pR: "alen (moveOneRight (fromList xs) (map int js)) = length xs
          \<and> mset (toList (moveOneRight (fromList xs) (map int js))) = mset (map Some xs)"
    using moveOneRight_perm_loop [OF mr bR]
    by (simp add: moveOneRight_def forEach_def sj alen_fromList toList_fromList)
  have sel: "mset (map ((!) xs) js) + mset (map ((!) xs) (filter (\<lambda>j. j \<notin> set js) [0..<length xs]))
               = mset xs"
    using d rng by (rule mset_selected_unselected)
  have lenj: "length js + length (filter (\<lambda>t. t \<notin> set js) [0..<length xs]) = length xs"
    using d rng by (rule length_unselected)
  have aL: "toList (moveAllLeft (fromList xs) (map int js))
              = map Some (map ((!) xs) js @ map ((!) xs) (filter (\<lambda>j. j \<notin> set js) [0..<length xs]))"
    using srt rng by (rule moveAllLeft_sorted)
  have aR: "toList (moveAllRight (fromList xs) (map int js))
              = map Some (map ((!) xs) (filter (\<lambda>j. j \<notin> set js) [0..<length xs]) @ map ((!) xs) js)"
    using srt rng by (rule moveAllRight_sorted)
  have mAL: "mset (toList (moveAllLeft (fromList xs) (map int js))) = mset (map Some xs)"
  proof -
    have "mset (toList (moveAllLeft (fromList xs) (map int js)))
            = image_mset Some (mset (map ((!) xs) js)
                + mset (map ((!) xs) (filter (\<lambda>j. j \<notin> set js) [0..<length xs])))"
      unfolding aL by (simp only: mset_map mset_append image_mset_union)
    then show ?thesis unfolding sel by simp
  qed
  have mAR: "mset (toList (moveAllRight (fromList xs) (map int js))) = mset (map Some xs)"
  proof -
    have "mset (toList (moveAllRight (fromList xs) (map int js)))
            = image_mset Some (mset (map ((!) xs) js)
                + mset (map ((!) xs) (filter (\<lambda>j. j \<notin> set js) [0..<length xs])))"
      unfolding aR by (simp only: mset_map mset_append image_mset_union add.commute)
    then show ?thesis unfolding sel by simp
  qed
  have lAL: "length (toList (moveAllLeft (fromList xs) (map int js))) = length xs"
    unfolding aL using lenj by simp
  have lAR: "length (toList (moveAllRight (fromList xs) (map int js))) = length xs"
    unfolding aR using lenj by simp
  have lL: "length (toList (moveOneLeft (fromList xs) (map int js))) = length xs"
    using pL by (simp add: toList_def)
  have lR: "length (toList (moveOneRight (fromList xs) (map int js))) = length xs"
    using pR by (simp add: toList_def)
  show ?thesis
    unfolding eqL eqR eqAL eqAR using pL pR mAL mAR lAL lAR lL lR by blast
qed

theorem C10_restack_is_permutation_witness:
  "mset (toList (moveOneLeft (fromList ''abcde'') (map int [3, 1]))) = mset (map Some ''abcde'')
   \<and> mset (toList (moveOneRight (fromList ''abcde'') (map int [3, 1]))) = mset (map Some ''abcde'')
   \<and> mset (toList (moveAllLeft (fromList ''abcde'') (map int [3, 1]))) = mset (map Some ''abcde'')
   \<and> mset (toList (moveAllRight (fromList ''abcde'') (map int [3, 1]))) = mset (map Some ''abcde'')
   \<and> length (toList (moveAllRight (fromList ''abcde'') (map int [3, 1]))) = 5"
proof -
  have d: "distinct [3, 1::nat]" by simp
  have r: "\<forall>i\<in>set [3, 1::nat]. i < length ''abcde''" by simp
  show ?thesis
    using C10_restack_is_permutation [OF d r] by simp
qed


section \<open>Geometry and resizing: theorems\<close>

lemma hypot_nonneg: "0 \<le> hypot a b"
  unfolding hypot_def by simp

lemma hypot_zero_iff: "hypot a b = 0 \<longleftrightarrow> a = 0 \<and> b = 0"
  unfolding hypot_def by (simp add: sum_power2_eq_zero_iff)

lemma reduceLength_polyline:
  "reduceLength p ps t = t + polylineLength (p # ps)"
  by (induction ps arbitrary: p t) simp_all

lemma polylineLength_nonneg: "0 \<le> polylineLength ps"
  by (induction ps rule: polylineLength.induct) (simp_all add: hypot_nonneg)

lemma polylineLength_origin:
  "ps \<noteq> [] \<Longrightarrow> hd ps = (0, 0) \<Longrightarrow> polylineLength ((0, 0) # ps) = polylineLength ps"
  by (cases ps) (simp_all add: hypot_def)

lemma rotation_norm:
  fixes a b c s :: real
  shows "(a * c - b * s)\<^sup>2 + (a * s + b * c)\<^sup>2 = (a\<^sup>2 + b\<^sup>2) * (c\<^sup>2 + s\<^sup>2)"
  by (simp add: power2_eq_square algebra_simps)

lemma hypot_scaled_rotation:
  assumes "0 \<le> m" "a\<^sup>2 + b\<^sup>2 = 1"
  shows "hypot (m * (a * cos t - b * sin t)) (m * (a * sin t + b * cos t)) = m"
proof -
  have sc: "(m * A)\<^sup>2 + (m * B)\<^sup>2 = m\<^sup>2 * (A\<^sup>2 + B\<^sup>2)" for A B :: real
    by (simp add: power_mult_distrib distrib_left)
  have "(m * (a * cos t - b * sin t))\<^sup>2 + (m * (a * sin t + b * cos t))\<^sup>2
          = m\<^sup>2 * ((a * cos t - b * sin t)\<^sup>2 + (a * sin t + b * cos t)\<^sup>2)"
    by (rule sc)
  also have "\<dots> = m\<^sup>2 * ((a\<^sup>2 + b\<^sup>2) * ((cos t)\<^sup>2 + (sin t)\<^sup>2))"
    by (simp only: rotation_norm)
  also have "\<dots> = m\<^sup>2" using assms(2) by simp
  finally show ?thesis using assms(1) by (simp add: hypot_def)
qed

lemma unit_direction:
  assumes "d = hypot a b" "d \<noteq> 0"
  shows "(a / d)\<^sup>2 + (b / d)\<^sup>2 = 1"
proof -
  have "d\<^sup>2 = a\<^sup>2 + b\<^sup>2" using assms(1) by (simp add: hypot_def)
  moreover have "d\<^sup>2 \<noteq> 0" using assms(2) by simp
  ultimately show ?thesis by (simp add: power_divide add_divide_distrib [symmetric])
qed

text \<open>
  Claim C6 (as amended). For every arrow whose last segment has non-zero length (the point
  before the last, or the origin when there is one point only, differs from the last
  point), \<open>getArrowPoints\<close> returns the tip and two wing points. With \<open>m\<close> the smaller of
  30 and half the cumulative length of the polyline from the origin through the points
  (the polyline of the points themselves when the first point is the origin), and
  \<open>(ux, uy)\<close> the unit vector of the reverse direction of the last segment, the wings are
  the tip plus \<open>m\<close> times \<open>(ux, uy)\<close> rotated by \<open>-20\<close> and by \<open>+20\<close> degrees; both wings
  have length \<open>m\<close>.
\<close>

theorem C6_arrow_wings:
  assumes ne: "points e \<noteq> []"
  defines "p2 \<equiv> last (points e)"
  defines "p1 \<equiv> (if length (points e) \<ge> 2 then points e ! (length (points e) - 2) else (0, 0))"
  defines "d \<equiv> hypot (fst p2 - fst p1) (snd p2 - snd p1)"
  defines "m \<equiv> min 30 (polylineLength ((0, 0) # points e) / 2)"
  defines "ux \<equiv> (fst p1 - fst p2) / d"
  defines "uy \<equiv> (snd p1 - snd p2) / d"
  assumes nz: "p1 \<noteq> p2"
  shows "\<exists>x3 y3 x4 y4.
           getArrowPoints e = Inr [Some (fst p2), Some (snd p2), Some x3, Some y3, Some x4, Some y4]
         \<and> x3 - fst p2 = m * (ux * cos (- (20 * pi / 180)) - uy * sin (- (20 * pi / 180)))
         \<and> y3 - snd p2 = m * (ux * sin (- (20 * pi / 180)) + uy * cos (- (20 * pi / 180)))
         \<and> x4 - fst p2 = m * (ux * cos (20 * pi / 180) - uy * sin (20 * pi / 180))
         \<and> y4 - snd p2 = m * (ux * sin (20 * pi / 180) + uy * cos (20 * pi / 180))
         \<and> hypot (x3 - fst p2) (y3 - snd p2) = m
         \<and> hypot (x4 - fst p2) (y4 - snd p2) = m
         \<and> ux\<^sup>2 + uy\<^sup>2 = 1
         \<and> (hd (points e) = (0, 0)
              \<longrightarrow> polylineLength ((0, 0) # points e) = polylineLength (points e))"
proof -
  obtain x1 y1 where p1: "p1 = (x1, y1)" by (cases p1)
  obtain x2 y2 where p2: "p2 = (x2, y2)" by (cases p2)
  have dne: "d \<noteq> 0"
    using nz by (auto simp: d_def hypot_zero_iff p1 p2)
  have d': "d = hypot (x2 - x1) (y2 - y1)" by (simp add: d_def p1 p2)
  have lastp: "points e ! (length (points e) - Suc 0) = (x2, y2)"
    using ne p2 by (simp add: p2_def last_conv_nth)
  have m0: "0 \<le> m" unfolding m_def using polylineLength_nonneg [of "(0, 0) # points e"] by simp
  have unit: "ux\<^sup>2 + uy\<^sup>2 = 1"
  proof -
    have "d = hypot (fst p1 - fst p2) (snd p1 - snd p2)"
      by (simp add: d_def hypot_def power2_commute)
    then show ?thesis unfolding ux_def uy_def using dne by (rule unit_direction)
  qed
  define xs where "xs = x2 - ((x2 - x1) / d) * m"
  define ys where "ys = y2 - ((y2 - y1) / d) * m"
  have xs: "xs - x2 = m * ux" and ys: "ys - y2 = m * uy"
    using dne by (simp_all add: xs_def ys_def ux_def uy_def p1 p2 field_simps)
  define x3 where "x3 = fst (rotatePoint xs ys x2 y2 ((- 20 * pi) / 180))"
  define y3 where "y3 = snd (rotatePoint xs ys x2 y2 ((- 20 * pi) / 180))"
  define x4 where "x4 = fst (rotatePoint xs ys x2 y2 ((20 * pi) / 180))"
  define y4 where "y4 = snd (rotatePoint xs ys x2 y2 ((20 * pi) / 180))"
  have g: "getArrowPoints e = Inr [Some x2, Some y2, Some x3, Some y3, Some x4, Some y4]"
  proof -
    have pp: "(if 2 \<le> length (points e) then points e ! (length (points e) - 2) else (0, 0)) = (x1, y1)"
      using p1 by (simp add: p1_def)
    show ?thesis
      using ne dne
      by (simp add: getArrowPoints_def Let_def pp lastp d' [symmetric] reduceLength_polyline
          m_def [symmetric] xs_def ys_def x3_def y3_def x4_def y4_def
          split_beta)
  qed
  have neg: "- 20 * pi / 180 = - (20 * pi / 180)" by simp
  have e3x: "x3 - x2 = m * (ux * cos (- (20 * pi / 180)) - uy * sin (- (20 * pi / 180)))"
    unfolding x3_def rotatePoint_def neg fst_conv xs ys by (simp add: algebra_simps)
  have e3y: "y3 - y2 = m * (ux * sin (- (20 * pi / 180)) + uy * cos (- (20 * pi / 180)))"
    unfolding y3_def rotatePoint_def neg snd_conv xs ys by (simp add: algebra_simps)
  have e4x: "x4 - x2 = m * (ux * cos (20 * pi / 180) - uy * sin (20 * pi / 180))"
    unfolding x4_def rotatePoint_def fst_conv xs ys by (simp add: algebra_simps)
  have e4y: "y4 - y2 = m * (ux * sin (20 * pi / 180) + uy * cos (20 * pi / 180))"
    unfolding y4_def rotatePoint_def snd_conv xs ys by (simp add: algebra_simps)
  have l3: "hypot (x3 - x2) (y3 - y2) = m"
    unfolding e3x e3y using m0 unit by (rule hypot_scaled_rotation)
  have l4: "hypot (x4 - x2) (y4 - y2) = m"
    unfolding e4x e4y using m0 unit by (rule hypot_scaled_rotation)
  have orig: "hd (points e) = (0, 0)
              \<longrightarrow> polylineLength ((0, 0) # points e) = polylineLength (points e)"
    using ne by (simp add: polylineLength_origin)
  show ?thesis
    using g e3x e3y e4x e4y l3 l4 unit orig unfolding p2 fst_conv snd_conv by blast
qed

lemma hypot_axis: "hypot 0 b = \<bar>b\<bar>" "hypot a 0 = \<bar>a\<bar>"
  by (simp_all add: hypot_def)

theorem C6_arrow_wings_witness:
  "\<exists>x3 y3 x4 y4.
     getArrowPoints arrowBent = Inr [Some 3, Some 4, Some x3, Some y3, Some x4, Some y4]
     \<and> hypot (x3 - 3) (y3 - 4) = 7 / 2 \<and> hypot (x4 - 3) (y4 - 4) = 7 / 2
     \<and> x3 - 3 = 7 / 2 * sin (- (20 * pi / 180))
     \<and> x4 - 3 = 7 / 2 * sin (20 * pi / 180)"
proof -
  have ne: "points arrowBent \<noteq> []" by (simp add: arrowBent_def)
  have nz: "(if length (points arrowBent) \<ge> 2
             then points arrowBent ! (length (points arrowBent) - 2) else (0, 0))
            \<noteq> last (points arrowBent)"
    by (simp add: arrowBent_def)
  from C6_arrow_wings [OF ne nz] show ?thesis
    by (simp add: arrowBent_def hypot_axis, blast)
qed

text \<open>
  The claim as worded fails for an arrow whose last segment has length zero, such as the
  arrow with the single point \<open>[0, 0]\<close> that a pointer-down creates: the direction is
  \<open>0 / 0\<close>, and the four wing coordinates are \<^verbatim>\<open>NaN\<close>.
\<close>

theorem C6_fresh_arrow_counterexample:
  "getArrowPoints arrowFresh = Inr [Some 0, Some 0, None, None, None, None]"
  by (simp add: getArrowPoints_def arrowFresh_def hypot_axis)

lemma floor_half_plus_one:
  fixes w :: real
  shows "(w = of_int \<lfloor>w / 2\<rfloor> + 1) = (w = 1 \<or> w = 2)"
proof
  assume eq: "w = of_int \<lfloor>w / 2\<rfloor> + 1"
  define k where "k = \<lfloor>w / 2\<rfloor>"
  have lo: "of_int k \<le> w / 2" and hi: "w / 2 < of_int k + 1"
    unfolding k_def by linarith+
  have w: "w = of_int k + 1" using eq by (simp add: k_def)
  have "(of_int k :: real) \<le> 1" using lo w by simp
  then have k1: "k \<le> 1" by simp
  have "(- 1 :: real) < of_int k" using hi w by simp
  then have k0: "0 \<le> k" by linarith
  from k0 k1 have "k = 0 \<or> k = 1" by auto
  then show "w = 1 \<or> w = 2" using w by auto
next
  assume "w = 1 \<or> w = 2"
  then show "w = of_int \<lfloor>w / 2\<rfloor> + 1" by auto
qed

text \<open>
  Claim C7 (as amended). \<open>getDiamondPoints\<close> is a total function (no operation of it can
  raise) that returns the vertices top \<open>(\<lfloor>w / 2\<rfloor> + 1, 0)\<close>, right \<open>(w, \<lfloor>h / 2\<rfloor> + 1)\<close>,
  bottom \<open>(\<lfloor>w / 2\<rfloor> + 1, h)\<close> and left \<open>(0, \<lfloor>h / 2\<rfloor> + 1)\<close>. For a width and a height that
  are not negative the two coordinates offset by +1 are at least 1, so that the edges
  top-right, bottom-left and left-top have non-zero length; the edge right-bottom has zero
  length exactly when the width is 1 or 2 and the height is 1 or 2.
\<close>

theorem C7_diamond_points:
  "getDiamondPoints e
     = (of_int \<lfloor>width e / 2\<rfloor> + 1, 0, width e, of_int \<lfloor>height e / 2\<rfloor> + 1,
        of_int \<lfloor>width e / 2\<rfloor> + 1, height e, 0, of_int \<lfloor>height e / 2\<rfloor> + 1)
   \<and> (0 \<le> width e \<and> 0 \<le> height e \<longrightarrow>
        (case getDiamondPoints e of
           (topX, topY, rightX, rightY, bottomX, bottomY, leftX, leftY) \<Rightarrow>
             1 \<le> topX \<and> 1 \<le> rightY \<and> bottomX = topX \<and> leftY = rightY
             \<and> (topX, topY) \<noteq> (rightX, rightY)
             \<and> (bottomX, bottomY) \<noteq> (leftX, leftY)
             \<and> (leftX, leftY) \<noteq> (topX, topY)
             \<and> (((rightX, rightY) = (bottomX, bottomY))
                  = ((width e = 1 \<or> width e = 2) \<and> (height e = 1 \<or> height e = 2)))))"
proof (intro conjI impI)
  show "getDiamondPoints e
     = (of_int \<lfloor>width e / 2\<rfloor> + 1, 0, width e, of_int \<lfloor>height e / 2\<rfloor> + 1,
        of_int \<lfloor>width e / 2\<rfloor> + 1, height e, 0, of_int \<lfloor>height e / 2\<rfloor> + 1)"
    by (simp add: getDiamondPoints_def Let_def)
next
  assume a: "0 \<le> width e \<and> 0 \<le> height e"
  have fw: "0 \<le> \<lfloor>width e / 2\<rfloor>" and fh: "0 \<le> \<lfloor>height e / 2\<rfloor>" using a by simp_all
  then have tw: "(1::real) \<le> of_int \<lfloor>width e / 2\<rfloor> + 1"
    and th: "(1::real) \<le> of_int \<lfloor>height e / 2\<rfloor> + 1" by simp_all
  have nzw: "of_int \<lfloor>width e / 2\<rfloor> + 1 \<noteq> (0::real)"
    and nzh: "of_int \<lfloor>height e / 2\<rfloor> + 1 \<noteq> (0::real)"
    using tw th by linarith+
  have ew: "(width e = of_int \<lfloor>width e / 2\<rfloor> + 1) = (width e = 1 \<or> width e = 2)"
    by (rule floor_half_plus_one)
  have eh: "(of_int \<lfloor>height e / 2\<rfloor> + 1 = height e) = (height e = 1 \<or> height e = 2)"
    using floor_half_plus_one [of "height e"] by auto
  show "case getDiamondPoints e of
           (topX, topY, rightX, rightY, bottomX, bottomY, leftX, leftY) \<Rightarrow>
             1 \<le> topX \<and> 1 \<le> rightY \<and> bottomX = topX \<and> leftY = rightY
             \<and> (topX, topY) \<noteq> (rightX, rightY)
             \<and> (bottomX, bottomY) \<noteq> (leftX, leftY)
             \<and> (leftX, leftY) \<noteq> (topX, topY)
             \<and> (((rightX, rightY) = (bottomX, bottomY))
                  = ((width e = 1 \<or> width e = 2) \<and> (height e = 1 \<or> height e = 2)))"
    using tw th nzw nzh ew eh by (auto simp: getDiamondPoints_def Let_def)
qed

theorem C7_diamond_points_witness:
  "getDiamondPoints diamond40 = (21, 0, 40, 11, 21, 21, 0, 11)"
  using C7_diamond_points [of diamond40] by (simp add: diamond40_def)

text \<open>
  The claim as worded fails for a diamond of width 2 and height 2: the vertices right and
  bottom are both \<open>(2, 2)\<close>, an edge of length zero.
\<close>

theorem C7_degenerate_edge_counterexample:
  "getDiamondPoints diamond2 = (2, 0, 2, 2, 2, 2, 0, 2)"
  by (simp add: getDiamondPoints_def diamond2_def)

lemma sortedOrder_distinct: "distinct (sortedOrder key pts)"
  by (simp add: sortedOrder_def)

lemma sortedOrder_set: "set (sortedOrder key pts) = {0..<length pts}"
  by (simp add: sortedOrder_def)

lemma sortedOrder_length: "length (sortedOrder key pts) = length pts"
  by (simp add: sortedOrder_def)

lemma sortedOrder_mset: "mset (sortedOrder key pts) = mset [0..<length pts]"
  unfolding sortedOrder_def by (rule mset_sort)

lemma sortedOrder_sorted: "sorted (map (\<lambda>j. key (pts ! j)) (sortedOrder key pts))"
  unfolding sortedOrder_def by (rule sorted_sort_key)

lemma adjustLoop_nth:
  assumes "distinct ord" "\<forall>j\<in>set ord. j < length pts" "r < length ord"
  shows "adjustLoop upd ord len delta s pts ! (ord ! r)
           = (if s \<le> r then upd (pts ! (ord ! r)) (delta / real (len - r)) else pts ! (ord ! r))"
  using assms
proof (induction upd ord len delta s pts rule: adjustLoop.induct)
  case (1 upd ord len delta s pts)
  show ?case
  proof (cases "s < length ord")
    case False
    then show ?thesis using "1.prems" by (subst adjustLoop.simps) simp
  next
    case True
    define pts1 where "pts1 = pts[ord ! s := upd (pts ! (ord ! s)) (delta / real (len - s))]"
    have unfold: "adjustLoop upd ord len delta s pts = adjustLoop upd ord len delta (s + 1) pts1"
      using True by (subst adjustLoop.simps) (simp add: pts1_def)
    have b: "\<forall>j\<in>set ord. j < length pts1" using "1.prems"(2) by (simp add: pts1_def)
    have IH: "adjustLoop upd ord len delta (s + 1) pts1 ! (ord ! r)
           = (if s + 1 \<le> r then upd (pts1 ! (ord ! r)) (delta / real (len - r)) else pts1 ! (ord ! r))"
      using "1.IH" [OF True "1.prems"(1) b [unfolded pts1_def] "1.prems"(3)]
      by (simp add: pts1_def)
    have os: "ord ! s < length pts" using "1.prems"(2) True by simp
    show ?thesis
    proof (cases "r = s")
      case True
      then show ?thesis unfolding unfold IH using os by (simp add: pts1_def)
    next
      case False
      then have "ord ! r \<noteq> ord ! s"
        using "1.prems"(1,3) True by (simp add: nth_eq_iff_index_eq)
      then have "pts1 ! (ord ! r) = pts ! (ord ! r)" by (simp add: pts1_def)
      then show ?thesis unfolding unfold IH using False by auto
    qed
  qed
qed

lemma adjustLoop_sortedOrder:
  assumes "r < length pts"
  shows "adjustLoop upd (sortedOrder key pts) len delta s pts ! (sortedOrder key pts ! r)
           = (if s \<le> r then upd (pts ! (sortedOrder key pts ! r)) (delta / real (len - r))
              else pts ! (sortedOrder key pts ! r))"
  using assms
  by (intro adjustLoop_nth) (simp_all add: sortedOrder_distinct sortedOrder_set sortedOrder_length)

text \<open>
  Claim C8. A linear element with more than two points is resized by an edge handle. The
  points are ranked by the resized coordinate (\<open>oy\<close>, \<open>ox\<close>: the positions of the points in
  ascending order of \<open>y\<close>, of \<open>x\<close>), and \<open>len\<close> is their number. The handles \<open>s\<close> and \<open>e\<close>
  add \<open>delta / (len - i)\<close> to the resized coordinate of the point of rank \<open>i \<ge> 1\<close> and leave
  the point of rank 0, the nearest to the fixed opposite edge, where it is. The handles \<open>n\<close>
  and \<open>w\<close> move the anchor of the element by \<open>delta\<close> and subtract \<open>delta / (len - i)\<close> from
  the coordinate of the point of rank \<open>i\<close> (\<open>i \<ge> 1\<close> for \<open>n\<close>, every \<open>i\<close> for \<open>w\<close>), so that the
  point of the last rank, the nearest to the fixed opposite edge, keeps its place in the
  scene. In each case the point nearest to the fixed edge is the one that moves least: not
  at all.
\<close>

theorem C8_edge_resize_weights:
  fixes e :: element and dx dy :: real
  assumes big: "2 < length (points e)" and i: "i < length (points e)"
  defines "len \<equiv> length (points e)"
  defines "oy \<equiv> sortedOrder snd (points e)"
  defines "ox \<equiv> sortedOrder fst (points e)"
  defines "eS \<equiv> resizeEdge HandleS dx dy e"
  defines "eE \<equiv> resizeEdge HandleE dx dy e"
  defines "eN \<equiv> resizeEdge HandleN dx dy e"
  defines "eW \<equiv> resizeEdge HandleW dx dy e"
  shows "mset oy = mset [0..<len] \<and> sorted (map (\<lambda>j. snd (points e ! j)) oy)
       \<and> mset ox = mset [0..<len] \<and> sorted (map (\<lambda>j. fst (points e ! j)) ox)
       \<and> points eS ! (oy ! i)
           = (fst (points e ! (oy ! i)),
              snd (points e ! (oy ! i)) + (if 1 \<le> i then dy / real (len - i) else 0))
       \<and> elementY eS = elementY e \<and> height eS = height e + dy
       \<and> points eE ! (ox ! i)
           = (fst (points e ! (ox ! i)) + (if 1 \<le> i then dx / real (len - i) else 0),
              snd (points e ! (ox ! i)))
       \<and> elementX eE = elementX e \<and> width eE = width e + dx
       \<and> points eN ! (oy ! i)
           = (fst (points e ! (oy ! i)),
              snd (points e ! (oy ! i)) - (if 1 \<le> i then dy / real (len - i) else 0))
       \<and> elementY eN = elementY e + dy \<and> height eN = height e - dy
       \<and> points eW ! (ox ! i)
           = (fst (points e ! (ox ! i)) - dx / real (len - i), snd (points e ! (ox ! i)))
       \<and> elementX eW = elementX e + dx \<and> width eW = width e - dx
       \<and> elementY eS + snd (points eS ! (oy ! 0)) = elementY e + snd (points e ! (oy ! 0))
       \<and> elementX eE + fst (points eE ! (ox ! 0)) = elementX e + fst (points e ! (ox ! 0))
       \<and> elementY eN + snd (points eN ! (oy ! (len - 1)))
           = elementY e + snd (points e ! (oy ! (len - 1)))
       \<and> elementX eW + fst (points eW ! (ox ! (len - 1)))
           = elementX e + fst (points e ! (ox ! (len - 1)))"
proof -
  have pos: "0 < length (points e)" and z: "0 < len" and l1: "len - 1 < length (points e)"
    using big by (auto simp: len_def)
  have pS: "points eS = adjustLoop (\<lambda>pnt d. (fst pnt, snd pnt + d)) oy len dy 1 (points e)"
    using pos by (simp add: eS_def resizeEdge_def Let_def oy_def len_def)
  have pE: "points eE = adjustLoop (\<lambda>pnt d. (fst pnt + d, snd pnt)) ox len dx 1 (points e)"
    using pos by (simp add: eE_def resizeEdge_def Let_def ox_def len_def)
  have pN: "points eN = adjustLoop (\<lambda>pnt d. (fst pnt, snd pnt - d)) oy len dy 1 (points e)"
    using pos by (simp add: eN_def resizeEdge_def Let_def oy_def len_def)
  have pW: "points eW = adjustLoop (\<lambda>pnt d. (fst pnt - d, snd pnt)) ox len dx 0 (points e)"
    using pos by (simp add: eW_def resizeEdge_def Let_def ox_def len_def)
  have fS: "elementY eS = elementY e" "height eS = height e + dy"
    by (simp_all add: eS_def resizeEdge_def Let_def)
  have fE: "elementX eE = elementX e" "width eE = width e + dx"
    by (simp_all add: eE_def resizeEdge_def Let_def)
  have fN: "elementY eN = elementY e + dy" "height eN = height e - dy"
    by (simp_all add: eN_def resizeEdge_def Let_def)
  have fW: "elementX eW = elementX e + dx" "width eW = width e - dx"
    by (simp_all add: eW_def resizeEdge_def Let_def)
  have rS: "points eS ! (oy ! r)
           = (fst (points e ! (oy ! r)),
              snd (points e ! (oy ! r)) + (if 1 \<le> r then dy / real (len - r) else 0))"
    if "r < length (points e)" for r
    unfolding pS oy_def using adjustLoop_sortedOrder [OF that, of _ snd] by simp
  have rE: "points eE ! (ox ! r)
           = (fst (points e ! (ox ! r)) + (if 1 \<le> r then dx / real (len - r) else 0),
              snd (points e ! (ox ! r)))"
    if "r < length (points e)" for r
    unfolding pE ox_def using adjustLoop_sortedOrder [OF that, of _ fst] by simp
  have rN: "points eN ! (oy ! r)
           = (fst (points e ! (oy ! r)),
              snd (points e ! (oy ! r)) - (if 1 \<le> r then dy / real (len - r) else 0))"
    if "r < length (points e)" for r
    unfolding pN oy_def using adjustLoop_sortedOrder [OF that, of _ snd] by simp
  have rW: "points eW ! (ox ! r)
           = (fst (points e ! (ox ! r)) - dx / real (len - r), snd (points e ! (ox ! r)))"
    if "r < length (points e)" for r
    unfolding pW ox_def using adjustLoop_sortedOrder [OF that, of _ fst] by simp
  have last1: "1 \<le> len - 1" "real (len - (len - 1)) = 1" using big by (simp_all add: len_def)
  have nS: "elementY eS + snd (points eS ! (oy ! 0)) = elementY e + snd (points e ! (oy ! 0))"
    by (simp add: fS rS [OF pos])
  have nE: "elementX eE + fst (points eE ! (ox ! 0)) = elementX e + fst (points e ! (ox ! 0))"
    by (simp add: fE rE [OF pos])
  have nN: "elementY eN + snd (points eN ! (oy ! (len - 1)))
           = elementY e + snd (points e ! (oy ! (len - 1)))"
    unfolding rN [OF l1] fN using last1 by simp
  have nW: "elementX eW + fst (points eW ! (ox ! (len - 1)))
           = elementX e + fst (points e ! (ox ! (len - 1)))"
    unfolding rW [OF l1] fW using last1 by simp
  have so: "mset oy = mset [0..<len]" "sorted (map (\<lambda>j. snd (points e ! j)) oy)"
    "mset ox = mset [0..<len]" "sorted (map (\<lambda>j. fst (points e ! j)) ox)"
    unfolding oy_def ox_def len_def
    by (rule sortedOrder_mset sortedOrder_sorted)+
  show ?thesis
    using so rS [OF i] rE [OF i] rN [OF i] rW [OF i] fS fE fN fW nS nE nN nW
    by (simp only: simp_thms)
qed

theorem C8_edge_resize_weights_witness:
  "sortedOrder snd (points lineZigzag) = [0, 2, 1]
   \<and> points (resizeEdge HandleS 0 12 lineZigzag) ! 2 = (15, 26)
   \<and> points (resizeEdge HandleN 0 12 lineZigzag) ! 2 = (15, 14)
   \<and> elementY (resizeEdge HandleN 0 12 lineZigzag) = 32"
proof -
  have big: "2 < length (points lineZigzag)" and i: "1 < length (points lineZigzag)"
    by (simp_all add: lineZigzag_def)
  have o: "sortedOrder snd (points lineZigzag) = [0, 2, 1]"
    by (simp add: sortedOrder_def lineZigzag_def upt_rec)
  show ?thesis
    using C8_edge_resize_weights [OF big i, of 0 12]
    by (simp add: o) (simp add: lineZigzag_def)
qed


section \<open>Hit testing: theorems\<close>

subsection \<open>Rounding to a double\<close>

lemma roundHalfEven_error: "\<bar>of_int (roundHalfEven q) - q\<bar> \<le> 1 / 2"
  unfolding roundHalfEven_def Let_def by (auto; linarith)

lemma roundHalfEven_int: "roundHalfEven (of_int n) = n"
  by (simp add: roundHalfEven_def)

lemma floor_log_le:
  assumes "r \<noteq> 0"
  shows "2 powi \<lfloor>log 2 \<bar>r\<bar>\<rfloor> \<le> \<bar>r\<bar>"
proof -
  have "2 powr (of_int \<lfloor>log 2 \<bar>r\<bar>\<rfloor>) \<le> 2 powr (log 2 \<bar>r\<bar>)"
    by (intro powr_mono) auto
  also have "\<dots> = \<bar>r\<bar>" using assms by simp
  finally show ?thesis by (simp add: powr_real_of_int')
qed

lemma floor_log_eq:
  assumes "2 powi k \<le> \<bar>r\<bar>" "\<bar>r\<bar> < 2 powi (k + 1)"
  shows "\<lfloor>log 2 \<bar>r\<bar>\<rfloor> = k"
proof -
  have "(0::real) < 2 powi k" by simp
  then have pos: "0 < \<bar>r\<bar>" using assms(1) by linarith
  have "2 powr (of_int k) \<le> \<bar>r\<bar>" "\<bar>r\<bar> < 2 powr (of_int (k + 1))"
    using assms by (simp_all only: powr_real_of_int' [of 2, simplified])
  then show ?thesis using pos floor_log_eq_powr_iff [of "\<bar>r\<bar>" 2 k] by simp
qed

lemma roundDouble_error:
  "\<bar>roundDouble r - r\<bar> \<le> max (\<bar>r\<bar> / 2 ^ 53) (1 / 2 ^ 1075)"
proof (cases "r = 0")
  case True then show ?thesis by (simp add: roundDouble_def)
next
  case False
  define E where "E = \<lfloor>log 2 \<bar>r\<bar>\<rfloor>"
  define e where "e = max (E - 52) (- 1074)"
  define p :: real where "p = 2 powi e"
  have ppos: "0 < p" by (simp add: p_def)
  have rd: "roundDouble r = of_int (roundHalfEven (r / p)) * p"
    using False by (simp add: roundDouble_def Let_def E_def e_def p_def)
  have "roundDouble r - r = (of_int (roundHalfEven (r / p)) - r / p) * p"
    using ppos by (simp add: rd left_diff_distrib)
  then have "\<bar>roundDouble r - r\<bar> = \<bar>of_int (roundHalfEven (r / p)) - r / p\<bar> * p"
    using ppos by (simp add: abs_mult)
  also have "\<dots> \<le> (1 / 2) * p"
    using roundHalfEven_error [of "r / p"] ppos by (intro mult_right_mono) auto
  finally have b: "\<bar>roundDouble r - r\<bar> \<le> p / 2" by simp
  show ?thesis
  proof (cases "E - 52 \<ge> - 1074")
    case True
    then have "e = E - 52" by (simp add: e_def)
    then have "p = 2 powi E / 2 ^ 52" by (simp add: p_def power_int_diff)
    also have "\<dots> \<le> \<bar>r\<bar> / 2 ^ 52" using floor_log_le [OF False]
      by (intro divide_right_mono) (auto simp: E_def)
    finally have "p / 2 \<le> \<bar>r\<bar> / 2 ^ 53" by simp
    with b have "\<bar>roundDouble r - r\<bar> \<le> \<bar>r\<bar> / 2 ^ 53" by (rule order_trans)
    then show ?thesis by (rule max.coboundedI1)
  next
    case False
    then have "e = - 1074" by (simp add: e_def)
    then have "p = 1 / 2 ^ 1074" by (simp add: p_def power_int_minus field_simps)
    then have "p / 2 = 1 / 2 ^ 1075" by simp
    with b have "\<bar>roundDouble r - r\<bar> \<le> 1 / 2 ^ 1075" by (simp only:)
    then show ?thesis by (rule max.coboundedI2)
  qed
qed

lemma roundDouble_abs_le:
  assumes "\<bar>r\<bar> \<le> 2 ^ 1001"
  shows "\<bar>roundDouble r\<bar> \<le> maxDouble"
proof -
  have e: "\<bar>roundDouble r - r\<bar> \<le> max (\<bar>r\<bar> / 2 ^ 53) (1 / 2 ^ 1075)"
    by (rule roundDouble_error)
  have "\<bar>r\<bar> / 2 ^ 53 \<le> 2 ^ 1001" using assms by (simp add: field_simps)
  moreover have "(1::real) / 2 ^ 1075 \<le> 2 ^ 1001" by simp
  ultimately have "max (\<bar>r\<bar> / 2 ^ 53) (1 / 2 ^ 1075) \<le> 2 ^ 1001" by (rule max.boundedI)
  with e have "\<bar>roundDouble r - r\<bar> \<le> 2 ^ 1001" by (rule order_trans)
  then have "\<bar>roundDouble r\<bar> \<le> 2 ^ 1001 + 2 ^ 1001" using assms by linarith
  also have "\<dots> \<le> maxDouble" by (simp add: maxDouble_def)
  finally show ?thesis .
qed

lemma roundNumber_finite:
  assumes "\<bar>r\<bar> \<le> 2 ^ 1001"
  shows "roundNumber r = Finite (roundDouble r)"
  using roundDouble_abs_le [OF assms] by (simp add: roundNumber_def Let_def abs_le_iff not_less)

lemma roundDouble_error_le:
  assumes "\<bar>r\<bar> \<le> c" and "10 \<le> c"
  shows "\<bar>roundDouble r - r\<bar> \<le> c / 2 ^ 53"
proof -
  have e: "\<bar>roundDouble r - r\<bar> \<le> max (\<bar>r\<bar> / 2 ^ 53) (1 / 2 ^ 1075)"
    by (rule roundDouble_error)
  have "\<bar>r\<bar> / 2 ^ 53 \<le> c / 2 ^ 53" using assms(1) by (simp add: divide_right_mono)
  moreover have "(1::real) / 2 ^ 1075 \<le> 10 / 2 ^ 53" by simp
  then have "1 / 2 ^ 1075 \<le> c / 2 ^ 53"
    using assms(2) by (simp add: field_simps)
  ultimately have "max (\<bar>r\<bar> / 2 ^ 53) (1 / 2 ^ 1075) \<le> c / 2 ^ 53" by (rule max.boundedI)
  with e show ?thesis by (rule order_trans)
qed

lemma roundHalfEven_ge_floor: "\<lfloor>q\<rfloor> \<le> roundHalfEven q"
  by (simp add: roundHalfEven_def Let_def)

lemma roundHalfEven_le_ceiling: "roundHalfEven q \<le> \<lceil>q\<rceil>"
  unfolding roundHalfEven_def Let_def by (auto; linarith)

lemma roundDouble_grid:
  assumes "r \<noteq> 0"
  defines "p \<equiv> 2 powi (max (\<lfloor>log 2 \<bar>r\<bar>\<rfloor> - 52) (- 1074))"
  shows "of_int n * p \<le> r \<Longrightarrow> of_int n * p \<le> roundDouble r"
    and "r \<le> of_int n * p \<Longrightarrow> roundDouble r \<le> of_int n * p"
proof -
  have ppos: "0 < p" by (simp add: p_def)
  have rd: "roundDouble r = of_int (roundHalfEven (r / p)) * p"
    using assms(1) by (simp add: roundDouble_def Let_def p_def)
  {
    assume "of_int n * p \<le> r"
    then have "of_int n \<le> r / p" using ppos by (simp add: pos_le_divide_eq)
    then have "n \<le> \<lfloor>r / p\<rfloor>" by (simp add: le_floor_iff)
    also have "\<dots> \<le> roundHalfEven (r / p)" by (rule roundHalfEven_ge_floor)
    finally have "(of_int n :: real) \<le> of_int (roundHalfEven (r / p))" by simp
    then show "of_int n * p \<le> roundDouble r"
      unfolding rd using ppos by (simp add: mult_right_mono)
  }
  {
    assume "r \<le> of_int n * p"
    then have "r / p \<le> of_int n" using ppos by (simp add: pos_divide_le_eq)
    then have "\<lceil>r / p\<rceil> \<le> n" by (simp add: ceiling_le_iff)
    with roundHalfEven_le_ceiling [of "r / p"] have "roundHalfEven (r / p) \<le> n" by linarith
    then have "(of_int (roundHalfEven (r / p)) :: real) \<le> of_int n" by simp
    then show "roundDouble r \<le> of_int n * p"
      unfolding rd using ppos by (simp add: mult_right_mono)
  }
qed

lemma fixed_point_on_grid:
  assumes fp: "roundDouble d = d" and nz: "d \<noteq> 0" and le: "E \<le> \<lfloor>log 2 \<bar>d\<bar>\<rfloor>"
  shows "\<exists>n. d = of_int n * 2 powi (max (E - 52) (- 1074))"
proof -
  define ed where "ed = max (\<lfloor>log 2 \<bar>d\<bar>\<rfloor> - 52) (- 1074)"
  define e where "e = max (E - 52) (- 1074)"
  define m where "m = roundHalfEven (d / 2 powi ed)"
  have d: "d = of_int m * 2 powi ed"
    using fp nz by (simp add: roundDouble_def Let_def ed_def m_def)
  have "e \<le> ed" using le by (simp add: e_def ed_def)
  then obtain k :: nat where k: "ed = e + int k"
    by (metis zle_iff_zadd)
  have "(2::real) powi ed = 2 ^ k * 2 powi e"
    unfolding k by (simp add: power_int_add)
  then have "d = of_int (m * 2 ^ k) * 2 powi e"
    using d by simp
  then show ?thesis unfolding e_def by blast
qed

lemma fixed_point_exponent:
  assumes fp: "roundDouble d = d" and nz: "d \<noteq> 0"
  shows "- 1074 \<le> \<lfloor>log 2 \<bar>d\<bar>\<rfloor>"
proof -
  define ed where "ed = max (\<lfloor>log 2 \<bar>d\<bar>\<rfloor> - 52) (- 1074)"
  define m where "m = roundHalfEven (d / 2 powi ed)"
  have d: "d = of_int m * 2 powi ed"
    using fp nz by (simp add: roundDouble_def Let_def ed_def m_def)
  have p: "(0::real) < 2 powi ed" by simp
  have "m \<noteq> 0" using d nz by auto
  then have "1 \<le> \<bar>m\<bar>" by simp
  then have "(1::real) \<le> \<bar>of_int m\<bar>" by linarith
  then have "1 * (2::real) powi ed \<le> \<bar>of_int m\<bar> * 2 powi ed"
    using p by (intro mult_right_mono) auto
  also have "\<dots> = \<bar>d\<bar>" by (subst d) (simp add: abs_mult)
  finally have "2 powi ed \<le> \<bar>d\<bar>" by simp
  moreover have "(2::real) powi (- 1074) \<le> 2 powi ed"
    by (intro power_int_increasing) (auto simp: ed_def)
  ultimately have "2 powi (- 1074) \<le> \<bar>d\<bar>" by linarith
  then have "2 powr (of_int (- 1074)) \<le> \<bar>d\<bar>"
    by (simp only: powr_real_of_int' [of 2, simplified])
  then have "of_int (- 1074) \<le> log 2 \<bar>d\<bar>"
    using nz by (subst le_log_iff) auto
  then show ?thesis by (simp add: le_floor_iff)
qed

lemma floor_log_less:
  assumes "r \<noteq> 0"
  shows "\<bar>r\<bar> < 2 powi (\<lfloor>log 2 \<bar>r\<bar>\<rfloor> + 1)"
proof -
  have "log 2 \<bar>r\<bar> < of_int (\<lfloor>log 2 \<bar>r\<bar>\<rfloor> + 1)" by simp
  then have "\<bar>r\<bar> < 2 powr (of_int (\<lfloor>log 2 \<bar>r\<bar>\<rfloor> + 1))"
    using assms by (subst (asm) log_less_iff) auto
  then show ?thesis by (simp only: powr_real_of_int' [of 2, simplified])
qed

lemma floor_log_mono:
  assumes "r \<noteq> 0" and "\<bar>r\<bar> \<le> \<bar>d\<bar>"
  shows "\<lfloor>log 2 \<bar>r\<bar>\<rfloor> \<le> \<lfloor>log 2 \<bar>d\<bar>\<rfloor>"
  using assms by (intro floor_mono) (simp add: log_le_cancel_iff)

lemma roundDouble_fixed_same_binade:
  assumes "r \<noteq> 0" and "roundDouble d = d" and "d \<noteq> 0"
    and "\<lfloor>log 2 \<bar>r\<bar>\<rfloor> \<le> \<lfloor>log 2 \<bar>d\<bar>\<rfloor>"
  shows "d \<le> r \<Longrightarrow> d \<le> roundDouble r" and "r \<le> d \<Longrightarrow> roundDouble r \<le> d"
proof -
  obtain n where n: "d = of_int n * 2 powi (max (\<lfloor>log 2 \<bar>r\<bar>\<rfloor> - 52) (- 1074))"
    using fixed_point_on_grid [OF assms(2,3,4)] by blast
  show "d \<le> r \<Longrightarrow> d \<le> roundDouble r"
    using roundDouble_grid(1) [OF assms(1), of n] n by simp
  show "r \<le> d \<Longrightarrow> roundDouble r \<le> d"
    using roundDouble_grid(2) [OF assms(1), of n] n by simp
qed

lemma roundDouble_zero_side:
  shows "0 \<le> r \<Longrightarrow> 0 \<le> roundDouble r" and "r \<le> 0 \<Longrightarrow> roundDouble r \<le> 0"
proof -
  show "0 \<le> r \<Longrightarrow> 0 \<le> roundDouble r"
    using roundDouble_grid(1) [of r 0] by (cases "r = 0") (simp_all add: roundDouble_def)
  show "r \<le> 0 \<Longrightarrow> roundDouble r \<le> 0"
    using roundDouble_grid(2) [of r 0] by (cases "r = 0") (simp_all add: roundDouble_def)
qed

lemma roundDouble_power_side:
  assumes nz: "r \<noteq> 0" and lo: "- 1074 \<le> \<lfloor>log 2 \<bar>r\<bar>\<rfloor>"
  shows "0 < r \<Longrightarrow> 2 powi \<lfloor>log 2 \<bar>r\<bar>\<rfloor> \<le> roundDouble r"
    and "r < 0 \<Longrightarrow> roundDouble r \<le> - (2 powi \<lfloor>log 2 \<bar>r\<bar>\<rfloor>)"
proof -
  define E where "E = \<lfloor>log 2 \<bar>r\<bar>\<rfloor>"
  define e where "e = max (E - 52) (- 1074)"
  have "e \<le> E" using lo by (simp add: e_def E_def)
  then obtain k :: nat where k: "E = e + int k" by (metis zle_iff_zadd)
  have g: "(2::real) powi E = of_int (2 ^ k) * 2 powi e"
    unfolding k by (simp add: power_int_add)
  have g': "- ((2::real) powi E) = of_int (- (2 ^ k)) * 2 powi e"
    unfolding k by (simp add: power_int_add)
  have b: "2 powi E \<le> \<bar>r\<bar>" unfolding E_def by (rule floor_log_le [OF nz])
  show "0 < r \<Longrightarrow> 2 powi \<lfloor>log 2 \<bar>r\<bar>\<rfloor> \<le> roundDouble r"
    using roundDouble_grid(1) [OF nz, of "2 ^ k"] b g
    unfolding E_def [symmetric] e_def [symmetric] by simp
  show "r < 0 \<Longrightarrow> roundDouble r \<le> - (2 powi \<lfloor>log 2 \<bar>r\<bar>\<rfloor>)"
    using roundDouble_grid(2) [OF nz, of "- (2 ^ k)"] b g'
    unfolding E_def [symmetric] e_def [symmetric] by simp
qed

lemma roundDouble_not_below:
  assumes fp: "roundDouble d = d" and le: "d \<le> r"
  shows "d \<le> roundDouble r"
proof -
  consider "r = 0" | "0 < r" "d \<le> 0" | "0 < r" "0 < d" | "r < 0" by linarith
  then show ?thesis
  proof cases
    case 1 then show ?thesis using le by (simp add: roundDouble_def)
  next
    case 2 then show ?thesis using roundDouble_zero_side(1) [of r] by linarith
  next
    case 3
    then have nz: "r \<noteq> 0" "d \<noteq> 0" by auto
    show ?thesis
    proof (cases "\<lfloor>log 2 \<bar>r\<bar>\<rfloor> \<le> \<lfloor>log 2 \<bar>d\<bar>\<rfloor>")
      case True
      then show ?thesis using roundDouble_fixed_same_binade(1) [OF nz(1) fp nz(2)] le by simp
    next
      case False
      then have lt: "\<lfloor>log 2 \<bar>d\<bar>\<rfloor> + 1 \<le> \<lfloor>log 2 \<bar>r\<bar>\<rfloor>" by simp
      have lo: "- 1074 \<le> \<lfloor>log 2 \<bar>r\<bar>\<rfloor>"
        using fixed_point_exponent [OF fp nz(2)] lt by linarith
      have "\<bar>d\<bar> < 2 powi (\<lfloor>log 2 \<bar>d\<bar>\<rfloor> + 1)" by (rule floor_log_less [OF nz(2)])
      also have "\<dots> \<le> 2 powi \<lfloor>log 2 \<bar>r\<bar>\<rfloor>"
        using lt by (intro power_int_increasing) auto
      also have "\<dots> \<le> roundDouble r"
        using roundDouble_power_side(1) [OF nz(1) lo] 3(1) by simp
      finally show ?thesis by linarith
    qed
  next
    case 4
    then have nz: "r \<noteq> 0" "d \<noteq> 0" using le by auto
    have "\<bar>r\<bar> \<le> \<bar>d\<bar>" using 4 le by linarith
    then have "\<lfloor>log 2 \<bar>r\<bar>\<rfloor> \<le> \<lfloor>log 2 \<bar>d\<bar>\<rfloor>" by (rule floor_log_mono [OF nz(1)])
    then show ?thesis using roundDouble_fixed_same_binade(1) [OF nz(1) fp nz(2)] le by simp
  qed
qed

lemma roundDouble_not_above:
  assumes fp: "roundDouble d = d" and le: "r \<le> d"
  shows "roundDouble r \<le> d"
proof -
  consider "r = 0" | "r < 0" "0 \<le> d" | "r < 0" "d < 0" | "0 < r" by linarith
  then show ?thesis
  proof cases
    case 1 then show ?thesis using le by (simp add: roundDouble_def)
  next
    case 2 then show ?thesis using roundDouble_zero_side(2) [of r] by linarith
  next
    case 3
    then have nz: "r \<noteq> 0" "d \<noteq> 0" by auto
    show ?thesis
    proof (cases "\<lfloor>log 2 \<bar>r\<bar>\<rfloor> \<le> \<lfloor>log 2 \<bar>d\<bar>\<rfloor>")
      case True
      then show ?thesis using roundDouble_fixed_same_binade(2) [OF nz(1) fp nz(2)] le by simp
    next
      case False
      then have lt: "\<lfloor>log 2 \<bar>d\<bar>\<rfloor> + 1 \<le> \<lfloor>log 2 \<bar>r\<bar>\<rfloor>" by simp
      have lo: "- 1074 \<le> \<lfloor>log 2 \<bar>r\<bar>\<rfloor>"
        using fixed_point_exponent [OF fp nz(2)] lt by linarith
      have "\<bar>d\<bar> < 2 powi (\<lfloor>log 2 \<bar>d\<bar>\<rfloor> + 1)" by (rule floor_log_less [OF nz(2)])
      also have "\<dots> \<le> 2 powi \<lfloor>log 2 \<bar>r\<bar>\<rfloor>"
        using lt by (intro power_int_increasing) auto
      finally have "- (2 powi \<lfloor>log 2 \<bar>r\<bar>\<rfloor>) < d" using 3(2) by linarith
      moreover have "roundDouble r \<le> - (2 powi \<lfloor>log 2 \<bar>r\<bar>\<rfloor>)"
        using roundDouble_power_side(2) [OF nz(1) lo] 3(1) by simp
      ultimately show ?thesis by linarith
    qed
  next
    case 4
    then have nz: "r \<noteq> 0" "d \<noteq> 0" using le by auto
    have "\<bar>r\<bar> \<le> \<bar>d\<bar>" using 4 le by linarith
    then have "\<lfloor>log 2 \<bar>r\<bar>\<rfloor> \<le> \<lfloor>log 2 \<bar>d\<bar>\<rfloor>" by (rule floor_log_mono [OF nz(1)])
    then show ?thesis using roundDouble_fixed_same_binade(2) [OF nz(1) fp nz(2)] le by simp
  qed
qed

lemma roundDouble_binade:
  assumes "2 powi k \<le> \<bar>r\<bar>" and "\<bar>r\<bar> < 2 powi (k + 1)"
  shows "roundDouble r
           = of_int (roundHalfEven (r / 2 powi (max (k - 52) (- 1074))))
               * 2 powi (max (k - 52) (- 1074))"
proof -
  have "(0::real) < 2 powi k" by simp
  then have "0 < \<bar>r\<bar>" using assms(1) by linarith
  then have "r \<noteq> 0" by auto
  then show ?thesis
    by (simp add: roundDouble_def Let_def floor_log_eq [OF assms])
qed

lemma roundDouble_of_int:
  assumes "\<bar>n\<bar> < 2 ^ 53"
  shows "roundDouble (of_int n) = of_int n"
proof (cases "n = 0")
  case True then show ?thesis by (simp add: roundDouble_def)
next
  case False
  define r :: real where "r = of_int n"
  have nz: "r \<noteq> 0" using False by (simp add: r_def)
  define E where "E = \<lfloor>log 2 \<bar>r\<bar>\<rfloor>"
  have "1 \<le> \<bar>n\<bar>" using False by simp
  then have one: "1 \<le> \<bar>r\<bar>" unfolding r_def by linarith
  then have "0 \<le> log 2 \<bar>r\<bar>" by simp
  then have E0: "0 \<le> E" by (simp add: E_def)
  have "\<bar>r\<bar> < 2 ^ 53" using assms unfolding r_def
    by (metis of_int_abs of_int_less_numeral_power_cancel_iff)
  moreover have "2 powi E \<le> \<bar>r\<bar>" unfolding E_def by (rule floor_log_le [OF nz])
  ultimately have lt: "(2::real) powi E < 2 powi 53" by simp
  have E52: "E \<le> 52"
  proof (rule ccontr)
    assume "\<not> E \<le> 52"
    then have "53 \<le> E" by simp
    then have "(2::real) powi 53 \<le> 2 powi E" by (intro power_int_increasing) auto
    with lt show False by linarith
  qed
  define k where "k = nat (52 - E)"
  have e: "max (E - 52) (- 1074) = - int k" using E0 E52 by (simp add: k_def)
  have p: "(2::real) powi (- int k) = 1 / 2 ^ k" by (simp add: power_int_minus field_simps)
  have q: "r / (1 / 2 ^ k) = of_int (n * 2 ^ k)" by (simp add: r_def)
  have "roundDouble r = of_int (roundHalfEven (r / (1 / 2 ^ k))) * (1 / 2 ^ k)"
    using nz by (simp add: roundDouble_def Let_def E_def [symmetric] e p)
  also have "\<dots> = of_int (n * 2 ^ k) * (1 / 2 ^ k)"
    unfolding q roundHalfEven_int ..
  also have "\<dots> = r" by (simp add: r_def)
  finally show ?thesis by (simp add: r_def)
qed

lemma isDouble_of_int:
  assumes "\<bar>n\<bar> < 2 ^ 53"
  shows "isDouble (of_int n)"
proof -
  have "\<bar>of_int n :: real\<bar> < 2 ^ 53" using assms
    by (metis of_int_abs of_int_less_numeral_power_cancel_iff)
  moreover have "(2::real) ^ 53 \<le> maxDouble" by (simp add: maxDouble_def)
  ultimately show ?thesis
    using roundDouble_of_int [OF assms] by (simp add: isDouble_def)
qed

lemma roundDouble_value:
  assumes "2 powi k \<le> \<bar>r\<bar>" and "\<bar>r\<bar> < 2 powi (k + 1)"
    and "2 powi (max (k - 52) (- 1074)) = p" and "roundHalfEven (r / p) = m"
  shows "roundDouble r = of_int m * p"
  using roundDouble_binade [OF assms(1,2)] assms(3,4) by simp

lemma roundDouble_left_side:
  "roundDouble (5404319552844595 / 18014398509481984 - 10) = pointNearLeftSide"
proof -
  have "roundDouble (- (174739665541975245 / 18014398509481984))
          = of_int (- 5460614548186726) * (1 / 562949953421312)"
  proof (rule roundDouble_value [where k = 3])
    show "(2::real) powi (max (3 - 52) (- 1074)) = 1 / 562949953421312"
      by (simp add: power_int_minus)
    show "roundHalfEven (- (174739665541975245 / 18014398509481984) / (1 / 562949953421312))
            = - 5460614548186726"
      by (simp add: roundHalfEven_def Let_def)
  qed simp_all
  then show ?thesis by (simp add: pointNearLeftSide_def)
qed

lemma isDouble_pointNearLeftSide: "isDouble pointNearLeftSide"
proof -
  have "roundDouble (- (2730307274093363 / 281474976710656))
          = of_int (- 5460614548186726) * (1 / 562949953421312)"
  proof (rule roundDouble_value [where k = 3])
    show "(2::real) powi (max (3 - 52) (- 1074)) = 1 / 562949953421312"
      by (simp add: power_int_minus)
    show "roundHalfEven (- (2730307274093363 / 281474976710656) / (1 / 562949953421312))
            = - 5460614548186726"
      by (simp add: roundHalfEven_def Let_def)
  qed simp_all
  then have "roundDouble pointNearLeftSide = pointNearLeftSide"
    by (simp add: pointNearLeftSide_def)
  moreover have "\<bar>pointNearLeftSide\<bar> \<le> maxDouble"
    by (simp add: pointNearLeftSide_def maxDouble_def)
  ultimately show ?thesis by (simp add: isDouble_def)
qed

lemma isDouble_threeTenths: "isDouble (5404319552844595 / 18014398509481984)"
proof -
  have "roundDouble (5404319552844595 / 18014398509481984)
          = of_int 5404319552844595 * (1 / 18014398509481984)"
  proof (rule roundDouble_value [where k = "- 2"])
    show "(2::real) powi (max (- 2 - 52) (- 1074)) = 1 / 18014398509481984"
      by (simp add: power_int_minus)
    show "roundHalfEven (5404319552844595 / 18014398509481984 / (1 / 18014398509481984))
            = 5404319552844595"
      by (simp add: roundHalfEven_def Let_def)
  qed (simp_all add: power_int_minus)
  then show ?thesis by (simp add: isDouble_def maxDouble_def)
qed

lemma roundDouble_numeral:
  "roundDouble 100 = 100" "roundDouble 50 = 50" "roundDouble (- 10) = - 10"
  "roundDouble 110 = 110" "roundDouble 60 = 60"
  using roundDouble_of_int [of 100] roundDouble_of_int [of 50] roundDouble_of_int [of "- 10"]
    roundDouble_of_int [of 110] roundDouble_of_int [of 60]
  by simp_all

lemma isDouble_numeral:
  "isDouble (- 9)" "isDouble (- 10)" "isDouble 20" "isDouble 109" "isDouble 59"
  "isDouble 110" "isDouble 50" "isDouble 60"
  using isDouble_of_int [of "- 9"] isDouble_of_int [of "- 10"] isDouble_of_int [of 20]
    isDouble_of_int [of 109] isDouble_of_int [of 59] isDouble_of_int [of 110]
    isDouble_of_int [of 50] isDouble_of_int [of 60]
  by simp_all

subsection \<open>The filled rectangle\<close>

lemma rectangle_sides:
  fixes a b :: real
  assumes range: "\<bar>a\<bar> + \<bar>b\<bar> + 10 \<le> 2 ^ 1000"
  shows "nadd (Finite a) (Finite b) = Finite (roundDouble (a + b))"
    and "nsub (Finite a) lineThreshold = Finite (roundDouble (a - 10))"
    and "nadd (Finite (roundDouble (a + b))) lineThreshold
           = Finite (roundDouble (roundDouble (a + b) + 10))"
    and "\<bar>roundDouble (a + b) - (a + b)\<bar> \<le> (\<bar>a\<bar> + \<bar>b\<bar> + 10) / 2 ^ 53"
    and "\<bar>roundDouble (a - 10) - (a - 10)\<bar> \<le> (\<bar>a\<bar> + 10) / 2 ^ 53"
    and "\<bar>roundDouble (roundDouble (a + b) + 10) - (roundDouble (a + b) + 10)\<bar>
           \<le> (\<bar>roundDouble (a + b)\<bar> + 10) / 2 ^ 53"
proof -
  define M where "M = \<bar>a\<bar> + \<bar>b\<bar> + 10"
  have M10: "10 \<le> M" by (simp add: M_def)
  have Mr: "M \<le> 2 ^ 1000" using range by (simp add: M_def)
  have big: "(2::real) ^ 1000 + 2 ^ 1000 \<le> 2 ^ 1001" by simp
  have q: "M / 2 ^ 53 \<le> M" using M10 by (simp add: field_simps)
  have l: "\<bar>a - 10\<bar> \<le> M" by (simp add: M_def)
  have s: "\<bar>a + b\<bar> \<le> M" by (simp add: M_def)
  have s': "\<bar>a + b\<bar> + 10 \<le> M" by (simp add: M_def)
  have e2: "\<bar>roundDouble (a + b) - (a + b)\<bar> \<le> M / 2 ^ 53"
    by (rule roundDouble_error_le [OF s M10])
  have S: "\<bar>roundDouble (a + b) + 10\<bar> \<le> 2 * M"
    using e2 s' q by linarith
  have r1: "\<bar>a - 10\<bar> \<le> 2 ^ 1001" using l Mr big by linarith
  have r2: "\<bar>a + b\<bar> \<le> 2 ^ 1001" using s Mr big by linarith
  have r3: "\<bar>roundDouble (a + b) + 10\<bar> \<le> 2 ^ 1001" using S Mr big by linarith
  show "nadd (Finite a) (Finite b) = Finite (roundDouble (a + b))"
    by (simp add: roundNumber_finite [OF r2])
  show "nsub (Finite a) lineThreshold = Finite (roundDouble (a - 10))"
    by (simp add: nsub_def lineThreshold_def roundNumber_finite [OF r1, simplified])
  show "nadd (Finite (roundDouble (a + b))) lineThreshold
          = Finite (roundDouble (roundDouble (a + b) + 10))"
    by (simp add: lineThreshold_def roundNumber_finite [OF r3])
  show "\<bar>roundDouble (a + b) - (a + b)\<bar> \<le> (\<bar>a\<bar> + \<bar>b\<bar> + 10) / 2 ^ 53"
    using e2 by (simp only: M_def)
  show "\<bar>roundDouble (a - 10) - (a - 10)\<bar> \<le> (\<bar>a\<bar> + 10) / 2 ^ 53"
    by (rule roundDouble_error_le) simp_all
  show "\<bar>roundDouble (roundDouble (a + b) + 10) - (roundDouble (a + b) + 10)\<bar>
          \<le> (\<bar>roundDouble (a + b)\<bar> + 10) / 2 ^ 53"
    by (rule roundDouble_error_le) simp_all
qed

lemma strictly_between_rounded:
  assumes d: "roundDouble p = p"
  shows "p \<le> lo \<Longrightarrow> \<not> roundDouble lo < p"
    and "hi \<le> p \<Longrightarrow> \<not> p < roundDouble hi"
    and "lo < p \<Longrightarrow> p \<noteq> roundDouble lo \<Longrightarrow> roundDouble lo < p"
    and "p < hi \<Longrightarrow> p \<noteq> roundDouble hi \<Longrightarrow> p < roundDouble hi"
proof -
  show "p \<le> lo \<Longrightarrow> \<not> roundDouble lo < p"
    using roundDouble_not_below [OF d, of lo] by simp
  show "hi \<le> p \<Longrightarrow> \<not> p < roundDouble hi"
    using roundDouble_not_above [OF d, of hi] by simp
  show "lo < p \<Longrightarrow> p \<noteq> roundDouble lo \<Longrightarrow> roundDouble lo < p"
    using roundDouble_not_above [OF d, of lo] by simp
  show "p < hi \<Longrightarrow> p \<noteq> roundDouble hi \<Longrightarrow> p < roundDouble hi"
    using roundDouble_not_below [OF d, of hi] by simp
qed

lemma filled_rectangle_comparisons:
  assumes t: "elementType element = ''rectangle''"
    and f: "backgroundColor element \<noteq> ''transparent''"
    and rx: "\<bar>elementX element\<bar> + \<bar>width element\<bar> + 10 \<le> 2 ^ 1000"
    and ry: "\<bar>elementY element\<bar> + \<bar>height element\<bar> + 10 \<le> 2 ^ 1000"
  shows "getElementAbsoluteCoords linearBounds element
           = (Finite (elementX element), Finite (elementY element),
              Finite (roundDouble (elementX element + width element)),
              Finite (roundDouble (elementY element + height element)))"
    and "hitTest ellipseBranch distance diamondPoints arrowPoints linearBounds element px py
           = Inr (roundDouble (elementX element - 10) < px
                  \<and> px < roundDouble (roundDouble (elementX element + width element) + 10)
                  \<and> roundDouble (elementY element - 10) < py
                  \<and> py < roundDouble (roundDouble (elementY element + height element) + 10))"
proof -
  note X = rectangle_sides [OF rx]
  note Y = rectangle_sides [OF ry]
  show box: "getElementAbsoluteCoords linearBounds element
           = (Finite (elementX element), Finite (elementY element),
              Finite (roundDouble (elementX element + width element)),
              Finite (roundDouble (elementY element + height element)))"
    using t X(1) Y(1) by (simp add: getElementAbsoluteCoords_def)
  show "hitTest ellipseBranch distance diamondPoints arrowPoints linearBounds element px py
           = Inr (roundDouble (elementX element - 10) < px
                  \<and> px < roundDouble (roundDouble (elementX element + width element) + 10)
                  \<and> roundDouble (elementY element - 10) < py
                  \<and> py < roundDouble (roundDouble (elementY element + height element) + 10))"
    unfolding hitTest_def using t f
    by (simp add: box ngreater_def X(2,3) Y(2,3))
qed

text \<open>
  Claim C4 (as amended). Take a rectangle whose background colour is not
  \<open>''transparent''\<close>, with coordinates far from the overflow of doubles, and a query point
  \<open>(px, py)\<close> of doubles. The box that \<open>getElementAbsoluteCoords\<close> returns is
  \<open>[x1, y1, x2, y2]\<close> with \<open>x1 = x\<close>, \<open>y1 = y\<close> and \<open>x2\<close>, \<open>y2\<close> the doubles nearest to
  \<open>x + width\<close> and \<open>y + height\<close>. \<open>hitTest\<close> returns true exactly when the point lies strictly
  between the doubles nearest to \<open>x1 - 10\<close> and \<open>x2 + 10\<close> and strictly between the doubles
  nearest to \<open>y1 - 10\<close> and \<open>y2 + 10\<close>. Hence it returns false for every point that is 10 or
  more outside the box on some side, and true for every point strictly inside the box
  expanded by 10 on all four sides, unless a coordinate of the point is the double that the
  side it is compared with has been rounded to. Each rounded side differs from its exact
  value by at most \<open>1 / 2 ^ 53\<close> times the magnitude of the side of the box plus 10.
\<close>

theorem C4_filled_rectangle_hit:
  fixes element :: element and px py :: real
    and ellipseBranch distance diamondPoints arrowPoints linearBounds
  assumes t: "elementType element = ''rectangle''"
    and f: "backgroundColor element \<noteq> ''transparent''"
    and rx: "\<bar>elementX element\<bar> + \<bar>width element\<bar> + 10 \<le> 2 ^ 1000"
    and ry: "\<bar>elementY element\<bar> + \<bar>height element\<bar> + 10 \<le> 2 ^ 1000"
    and dx: "isDouble px" and dy: "isDouble py"
  defines "x1 \<equiv> elementX element" and "y1 \<equiv> elementY element"
    and "x2 \<equiv> roundDouble (elementX element + width element)"
    and "y2 \<equiv> roundDouble (elementY element + height element)"
  defines "hit \<equiv> hitTest ellipseBranch distance diamondPoints arrowPoints linearBounds
                    element px py"
  shows "getElementAbsoluteCoords linearBounds element
           = (Finite x1, Finite y1, Finite x2, Finite y2)
       \<and> hit = Inr (roundDouble (x1 - 10) < px \<and> px < roundDouble (x2 + 10)
                     \<and> roundDouble (y1 - 10) < py \<and> py < roundDouble (y2 + 10))
       \<and> (px \<le> x1 - 10 \<or> x2 + 10 \<le> px \<or> py \<le> y1 - 10 \<or> y2 + 10 \<le> py
            \<longrightarrow> hit = Inr False)
       \<and> (x1 - 10 < px \<and> px < x2 + 10 \<and> y1 - 10 < py \<and> py < y2 + 10
            \<and> px \<noteq> roundDouble (x1 - 10) \<and> px \<noteq> roundDouble (x2 + 10)
            \<and> py \<noteq> roundDouble (y1 - 10) \<and> py \<noteq> roundDouble (y2 + 10)
            \<longrightarrow> hit = Inr True)
       \<and> \<bar>roundDouble (x1 - 10) - (x1 - 10)\<bar> \<le> (\<bar>x1\<bar> + 10) / 2 ^ 53
       \<and> \<bar>roundDouble (x2 + 10) - (x2 + 10)\<bar> \<le> (\<bar>x2\<bar> + 10) / 2 ^ 53
       \<and> \<bar>roundDouble (y1 - 10) - (y1 - 10)\<bar> \<le> (\<bar>y1\<bar> + 10) / 2 ^ 53
       \<and> \<bar>roundDouble (y2 + 10) - (y2 + 10)\<bar> \<le> (\<bar>y2\<bar> + 10) / 2 ^ 53
       \<and> \<bar>x2 - (elementX element + width element)\<bar>
            \<le> (\<bar>elementX element\<bar> + \<bar>width element\<bar> + 10) / 2 ^ 53
       \<and> \<bar>y2 - (elementY element + height element)\<bar>
            \<le> (\<bar>elementY element\<bar> + \<bar>height element\<bar> + 10) / 2 ^ 53"
proof -
  note X = rectangle_sides [OF rx, folded x1_def x2_def]
  note Y = rectangle_sides [OF ry, folded y1_def y2_def]
  have px: "roundDouble px = px" and py: "roundDouble py = py"
    using dx dy by (simp_all add: isDouble_def)
  have box: "getElementAbsoluteCoords linearBounds element
               = (Finite x1, Finite y1, Finite x2, Finite y2)"
    unfolding x1_def y1_def x2_def y2_def by (rule filled_rectangle_comparisons(1) [OF t f rx ry])
  have hit: "hit = Inr (roundDouble (x1 - 10) < px \<and> px < roundDouble (x2 + 10)
                        \<and> roundDouble (y1 - 10) < py \<and> py < roundDouble (y2 + 10))"
    unfolding hit_def x1_def y1_def x2_def y2_def
    by (rule filled_rectangle_comparisons(2) [OF t f rx ry])
  have miss: "px \<le> x1 - 10 \<or> x2 + 10 \<le> px \<or> py \<le> y1 - 10 \<or> y2 + 10 \<le> py
              \<longrightarrow> hit = Inr False"
    using strictly_between_rounded(1,2) [OF px] strictly_between_rounded(1,2) [OF py]
    unfolding hit by blast
  have inside: "x1 - 10 < px \<and> px < x2 + 10 \<and> y1 - 10 < py \<and> py < y2 + 10
                \<and> px \<noteq> roundDouble (x1 - 10) \<and> px \<noteq> roundDouble (x2 + 10)
                \<and> py \<noteq> roundDouble (y1 - 10) \<and> py \<noteq> roundDouble (y2 + 10)
                \<longrightarrow> hit = Inr True"
    using strictly_between_rounded(3,4) [OF px] strictly_between_rounded(3,4) [OF py]
    unfolding hit by simp
  have ex: "\<bar>x2 - (elementX element + width element)\<bar>
              \<le> (\<bar>elementX element\<bar> + \<bar>width element\<bar> + 10) / 2 ^ 53"
    unfolding x2_def by (rule rectangle_sides(4) [OF rx])
  have ey: "\<bar>y2 - (elementY element + height element)\<bar>
              \<le> (\<bar>elementY element\<bar> + \<bar>height element\<bar> + 10) / 2 ^ 53"
    unfolding y2_def by (rule rectangle_sides(4) [OF ry])
  from box hit miss inside X(5) X(6) Y(5) Y(6) ex ey show ?thesis
    by (intro conjI)
qed

theorem C4_filled_rectangle_hit_witness:
  "hitTestRectangle rect100 (- 9) 20 = Inr True
   \<and> hitTestRectangle rect100 (- 10) 20 = Inr False
   \<and> hitTestRectangle rect100 109 59 = Inr True
   \<and> hitTestRectangle rect100 110 20 = Inr False
   \<and> hitTestRectangle rect100 50 60 = Inr False"
proof -
  have t: "elementType rect100 = ''rectangle''" and f: "backgroundColor rect100 \<noteq> ''transparent''"
    and rx: "\<bar>elementX rect100\<bar> + \<bar>width rect100\<bar> + 10 \<le> 2 ^ 1000"
    and ry: "\<bar>elementY rect100\<bar> + \<bar>height rect100\<bar> + 10 \<le> 2 ^ 1000"
    by (simp_all add: rect100_def)
  have v: "elementX rect100 = 0" "elementY rect100 = 0" "width rect100 = 100"
    "height rect100 = 50"
    by (simp_all add: rect100_def)
  note T = C4_filled_rectangle_hit [OF t f rx ry, unfolded v]
  have "hitTestRectangle rect100 (- 9) 20 = Inr True"
    using T [OF isDouble_numeral(1) isDouble_numeral(3)] by (simp add: roundDouble_numeral)
  moreover have "hitTestRectangle rect100 (- 10) 20 = Inr False"
    using T [OF isDouble_numeral(2) isDouble_numeral(3)] by (simp add: roundDouble_numeral)
  moreover have "hitTestRectangle rect100 109 59 = Inr True"
    using T [OF isDouble_numeral(4) isDouble_numeral(5)] by (simp add: roundDouble_numeral)
  moreover have "hitTestRectangle rect100 110 20 = Inr False"
    using T [OF isDouble_numeral(6) isDouble_numeral(3)] by (simp add: roundDouble_numeral)
  moreover have "hitTestRectangle rect100 50 60 = Inr False"
    using T [OF isDouble_numeral(7) isDouble_numeral(8)] by (simp add: roundDouble_numeral)
  ultimately show ?thesis by (intro conjI)
qed

text \<open>
  The claim as worded fails at a side that is not a double. For the filled rectangle with
  \<open>x = 0.3\<close>, \<open>y = 0\<close>, width 100 and height 50, the left side of the expanded box is
  \<open>x - 10\<close>, a little below \<open>-9.7\<close>, and the subtraction rounds it to \<open>-9.7\<close>. The point
  \<open>(-9.7, 20)\<close> is strictly inside the expanded box and \<open>hitTest\<close> returns false.
\<close>

theorem C4_rounded_side_counterexample:
  "isDouble (elementX rectThreeTenths) \<and> isDouble pointNearLeftSide \<and> isDouble 20
   \<and> elementX rectThreeTenths - 10 < pointNearLeftSide
   \<and> pointNearLeftSide < elementX rectThreeTenths + width rectThreeTenths + 10
   \<and> elementY rectThreeTenths - 10 < 20
   \<and> 20 < elementY rectThreeTenths + height rectThreeTenths + 10
   \<and> hitTestRectangle rectThreeTenths pointNearLeftSide 20 = Inr False"
proof -
  have t: "elementType rectThreeTenths = ''rectangle''"
    and f: "backgroundColor rectThreeTenths \<noteq> ''transparent''"
    and rx: "\<bar>elementX rectThreeTenths\<bar> + \<bar>width rectThreeTenths\<bar> + 10 \<le> 2 ^ 1000"
    and ry: "\<bar>elementY rectThreeTenths\<bar> + \<bar>height rectThreeTenths\<bar> + 10 \<le> 2 ^ 1000"
    by (simp_all add: rectThreeTenths_def)
  have x: "elementX rectThreeTenths = 5404319552844595 / 18014398509481984"
    by (simp add: rectThreeTenths_def)
  have "hitTestRectangle rectThreeTenths pointNearLeftSide 20 = Inr False"
    unfolding filled_rectangle_comparisons(2) [OF t f rx ry] x roundDouble_left_side by simp
  moreover have "isDouble (elementX rectThreeTenths)"
    unfolding x by (rule isDouble_threeTenths)
  moreover have "isDouble 20" by (rule isDouble_numeral)
  moreover have "elementX rectThreeTenths - 10 < pointNearLeftSide"
    "pointNearLeftSide < elementX rectThreeTenths + width rectThreeTenths + 10"
    "elementY rectThreeTenths - 10 < 20"
    "20 < elementY rectThreeTenths + height rectThreeTenths + 10"
    by (simp_all add: rectThreeTenths_def pointNearLeftSide_def)
  ultimately show ?thesis using isDouble_pointNearLeftSide by (intro conjI)
qed

end
